theory Spec2Isabelle
  imports Main "HOL-Library.AList" "HOL-Library.Multiset" "HOL-Library.Product_Lexorder"
begin

section \<open>The hand ranker of play.py\<close>

text \<open>
  Card identifiers and rank values are Python integers, modelled as \<open>int\<close>; Python's
  \<open>%\<close> and \<open>//\<close> are floor operations, as \<open>mod\<close> and \<open>div\<close> on \<open>int\<close> are.
  A Python exception is a value \<open>Inl e\<close> of the result type.
\<close>

datatype Hand =
  HIGH_CARD | PAIR | TWO_PAIR | THREE | STRAIGHT | FLUSH | FULL_HOUSE | FOUR | STRAIGHT_FLUSH

text \<open>The numeric values of the \<open>IntEnum\<close>.\<close>

fun hand_int :: "Hand \<Rightarrow> int" where
  "hand_int HIGH_CARD = 1"
| "hand_int PAIR = 2"
| "hand_int TWO_PAIR = 3"
| "hand_int THREE = 4"
| "hand_int STRAIGHT = 5"
| "hand_int FLUSH = 6"
| "hand_int FULL_HOUSE = 7"
| "hand_int FOUR = 8"
| "hand_int STRAIGHT_FLUSH = 9"

datatype py_error = IndexError | ValueError

text \<open>The tuple \<open>(Hand.X, v1, ..., vn)\<close> returned by \<open>assess_hand\<close>.\<close>

type_synonym descriptor = "Hand \<times> int list"

text \<open>Python compares tuples lexicographically; a proper prefix is smaller.\<close>

fun tuple_lt :: "int list \<Rightarrow> int list \<Rightarrow> bool" where
  "tuple_lt [] [] = False"
| "tuple_lt [] (y # ys) = True"
| "tuple_lt (x # xs) [] = False"
| "tuple_lt (x # xs) (y # ys) = (x < y \<or> (x = y \<and> tuple_lt xs ys))"

definition descriptor_lt :: "descriptor \<Rightarrow> descriptor \<Rightarrow> bool" where
  "descriptor_lt a b = tuple_lt (hand_int (fst a) # snd a) (hand_int (fst b) # snd b)"

definition py_bind :: "py_error + 'a \<Rightarrow> ('a \<Rightarrow> py_error + 'b) \<Rightarrow> py_error + 'b" where
  "py_bind m f = (case m of Inl e \<Rightarrow> Inl e | Inr x \<Rightarrow> f x)"

text \<open>\<open>xs[0]\<close> and \<open>xs[-1]\<close>, which raise \<open>IndexError\<close> on an empty sequence.\<close>

definition item0 :: "'a list \<Rightarrow> py_error + 'a" where
  "item0 xs = (case xs of [] \<Rightarrow> Inl IndexError | x # _ \<Rightarrow> Inr x)"

definition item_last :: "'a list \<Rightarrow> py_error + 'a" where
  "item_last xs = (if xs = [] then Inl IndexError else Inr (last xs))"

text \<open>
  \<open>sorted(xs, key=key, reverse=reverse)\<close>: a stable sort; with \<open>reverse=True\<close> the order
  is descending and elements with equal keys still keep their original order.
\<close>

definition py_sorted :: "('a \<Rightarrow> 'k::linorder) \<Rightarrow> bool \<Rightarrow> 'a list \<Rightarrow> 'a list" where
  "py_sorted key reverse xs = (if reverse then rev (sort_key key (rev xs)) else sort_key key xs)"

subsection \<open>collections.Counter\<close>

text \<open>
  A \<open>Counter\<close> is a dictionary from elements to counts; dictionaries keep the insertion
  order of their keys, so it is an association list in which counting an element either
  bumps its entry in place or appends a new entry.
\<close>

definition counter_add :: "'a \<Rightarrow> ('a \<times> nat) list \<Rightarrow> ('a \<times> nat) list" where
  "counter_add x d = AList.update x (case map_of d x of None \<Rightarrow> 1 | Some n \<Rightarrow> n + 1) d"

definition Counter :: "'a list \<Rightarrow> ('a \<times> nat) list" where
  "Counter xs = fold counter_add xs []"

text \<open>
  \<open>most_common(n)\<close> is \<open>sorted(items, key=count, reverse=True)[:n]\<close>: elements with equal
  counts come in the order first encountered.
\<close>

definition most_common :: "nat \<Rightarrow> ('a \<times> nat) list \<Rightarrow> ('a \<times> nat) list" where
  "most_common n d = take n (py_sorted snd True d)"

subsection \<open>Card encoding and sorting\<close>

definition card_value :: "int \<Rightarrow> int" where
  "card_value c = (if c mod 13 = 0 then 13 else c mod 13)"

definition sort_cards :: "int list \<Rightarrow> int option \<Rightarrow> bool \<Rightarrow> bool \<Rightarrow> int list" where
  "sort_cards cards suit reverse transform_cards =
     (let cards' = (case suit of None \<Rightarrow> cards | Some s \<Rightarrow> filter (\<lambda>c. c div 13 = s) cards)
      in if transform_cards then py_sorted (\<lambda>v. v) reverse (map card_value cards')
         else py_sorted card_value reverse cards')"

definition max_card :: "int list \<Rightarrow> int option \<Rightarrow> bool \<Rightarrow> py_error + int" where
  "max_card cards suit transform_cards = item_last (sort_cards cards suit False transform_cards)"

definition min_card :: "int list \<Rightarrow> bool \<Rightarrow> py_error + int" where
  "min_card cards transform_cards = item0 (sort_cards cards None False transform_cards)"

subsection \<open>Kicker selector\<close>

definition select_side_cards :: "int list \<Rightarrow> int list \<Rightarrow> int list" where
  "select_side_cards cards cards_to_exclude =
     rev (sorted_list_of_set (card_value ` set cards - card_value ` set cards_to_exclude))"

subsection \<open>Sequence finder\<close>

text \<open>The named tuple \<open>Card(value, id)\<close>; named tuples compare as tuples.\<close>

type_synonym Cards = "int \<times> int"

text \<open>
  The dictionary comprehension: a later card with the same rank value overwrites the entry
  of an earlier one, at the place of the earlier one.
\<close>

definition card_dict_of :: "int list \<Rightarrow> (int \<times> Cards) list" where
  "card_dict_of cards = fold (\<lambda>c d. AList.update (card_value c) (card_value c, c) d) cards []"

text \<open>
  The loop over \<open>range(len(cards) - 1)\<close>: \<open>prev\<close> is \<open>cards[i]\<close>, the list argument holds
  \<open>cards[i+1:]\<close>; the final \<open>sequences.append(sequence)\<close> is the base case.
\<close>

fun split_runs :: "Cards \<Rightarrow> Cards list \<Rightarrow> Cards list \<Rightarrow> Cards list list \<Rightarrow> Cards list list" where
  "split_runs prev [] sequence sequences = sequences @ [sequence]"
| "split_runs prev (c # cs) sequence sequences =
     (if fst c = fst prev + 1 then split_runs c cs (sequence @ [c]) sequences
      else split_runs c cs [c] (sequences @ [sequence]))"

text \<open>
  The result is a Python list: empty, or the two tuples made by \<open>zip(*max_sequence)\<close>
  (the values and the card identifiers).
\<close>

definition find_max_sequence :: "int list \<Rightarrow> py_error + int list list" where
  "find_max_sequence cards =
     (let card_dict = card_dict_of cards in
      if length card_dict = 1 then Inr []
      else
        let card_dict = (case map_of card_dict 13 of
                           None \<Rightarrow> card_dict
                         | Some ace \<Rightarrow> AList.update 0 (0, snd ace) card_dict);
            cards' = sort (map snd card_dict)
        in case cards' of
             [] \<Rightarrow> Inl IndexError
           | c # cs \<Rightarrow>
               let sequences = split_runs c cs [c] [];
                   max_sequence = last (py_sorted length False sequences);
                   max_sequence = drop (length max_sequence - 5) max_sequence
               in Inr (if max_sequence = [] then []
                       else [map fst max_sequence, map snd max_sequence]))"

subsection \<open>Duplicate grouper and flush detector\<close>

text \<open>A \<open>defaultdict(list)\<close>: a key that was never written reads as the empty list.\<close>

definition group_duplicates :: "int list \<Rightarrow> nat \<Rightarrow> int list" where
  "group_duplicates hand =
     fold (\<lambda>(card, n) groups. groups(n := groups n @ [card]))
          (most_common 2 (Counter (map card_value hand))) (\<lambda>_. [])"

text \<open>
  \<open>flush_suite\<close> calls \<open>counter.most_common(1)[0]\<close> twice on the same counter; the model
  evaluates it once. On an empty hand the index raises \<open>IndexError\<close>.
\<close>

definition flush_suite :: "int list \<Rightarrow> py_error + int option" where
  "flush_suite hand =
     (let counter = Counter (map (\<lambda>c. c div 13) hand) in
      py_bind (item0 (most_common 1 counter))
        (\<lambda>top. if snd top = 5 then Inr (Some (fst top)) else Inr None))"

subsection \<open>Hand ranker\<close>

text \<open>The unpacking \<open>seq_values, seq_cards = ...\<close> needs exactly two items.\<close>

definition unpack2 :: "'a list \<Rightarrow> py_error + 'a \<times> 'a" where
  "unpack2 r = (case r of [a, b] \<Rightarrow> Inr (a, b) | _ \<Rightarrow> Inl ValueError)"

text \<open>
  \<open>assess_hand\<close> is one chain of \<open>if\<close>/\<open>elif\<close> branches; \<open>assess_rest\<close> holds its last
  five branches (straight, three of a kind, two pair, pair, high card) and \<open>assess_hand\<close>
  the first four. A slice such as \<open>side_cards[:2]\<close> never raises and is \<open>take\<close>; an index
  such as \<open>side_cards[0]\<close> may raise and is \<open>item0\<close>. The condition of the first branch is
  a short-circuit \<open>and\<close>: \<open>flush_suite(seq_cards)\<close> is evaluated only for five values.
\<close>

definition assess_rest :: "int list \<Rightarrow> int list \<Rightarrow> (nat \<Rightarrow> int list) \<Rightarrow> py_error + descriptor" where
  "assess_rest cards seq_values duplicates =
     (if length seq_values = 5 then
        py_bind (item_last seq_values) (\<lambda>h. Inr (STRAIGHT, [h]))
      else if duplicates 3 \<noteq> [] then
        (let side_cards = select_side_cards cards (duplicates 3) in
         py_bind (item0 (duplicates 3)) (\<lambda>t. Inr (THREE, t # take 2 side_cards)))
      else if length (duplicates 2) = 2 then
        (let side_cards = select_side_cards cards (duplicates 2) in
         py_bind (max_card (duplicates 2) None True) (\<lambda>hi.
         py_bind (min_card (duplicates 2) True) (\<lambda>lo.
         py_bind (item0 side_cards) (\<lambda>k. Inr (TWO_PAIR, [hi, lo, k])))))
      else if length (duplicates 2) = 1 then
        (let side_cards = select_side_cards cards (duplicates 2) in
         py_bind (item0 (duplicates 2)) (\<lambda>p. Inr (PAIR, p # take 3 side_cards)))
      else
        (let best_hand = take 5 (sort_cards cards None True True) in
         Inr (HIGH_CARD, best_hand)))"

definition assess_hand :: "int list \<Rightarrow> py_error + descriptor" where
  "assess_hand cards =
     py_bind (find_max_sequence cards) (\<lambda>r.
     py_bind (unpack2 r) (\<lambda>(seq_values, seq_cards).
     let duplicates = group_duplicates cards in
     py_bind (if length seq_values = 5
              then py_bind (flush_suite seq_cards) (\<lambda>s. Inr (s \<noteq> None))
              else Inr False) (\<lambda>straight_flush.
     if straight_flush then
       py_bind (item_last seq_values) (\<lambda>h. Inr (STRAIGHT_FLUSH, [h]))
     else if duplicates 4 \<noteq> [] then
       (let side_cards = select_side_cards cards (duplicates 4) in
        py_bind (item0 (duplicates 4)) (\<lambda>q.
        py_bind (item0 side_cards) (\<lambda>k. Inr (FOUR, [q, k]))))
     else if duplicates 3 \<noteq> [] \<and> duplicates 2 \<noteq> [] then
       py_bind (item0 (duplicates 3)) (\<lambda>t.
       py_bind (item0 (duplicates 2)) (\<lambda>p. Inr (FULL_HOUSE, [t, p])))
     else
       py_bind (flush_suite cards) (\<lambda>suit.
       if suit \<noteq> None then
         (let flush_cards = sort_cards cards suit True True in
          Inr (FLUSH, take 5 flush_cards))
       else assess_rest cards seq_values duplicates))))"

section \<open>Reference: the best five-card poker hand\<close>

text \<open>
  The usual strength of exactly five cards, written from the rules of poker and not from
  \<open>assess_hand\<close>: the category, then the rank values ordered by multiplicity and by value.
  A set of five to seven cards is worth its best five-card subset; two sets are
  poker-equivalent when their best five-card hands have the same strength.
\<close>

definition ref_is_flush :: "int list \<Rightarrow> bool" where
  "ref_is_flush cards = (length (remdups (map (\<lambda>c. c div 13) cards)) = 1)"

text \<open>The top of a straight, for five values in descending order; the wheel tops at 4.\<close>

definition ref_straight_top :: "int list \<Rightarrow> int option" where
  "ref_straight_top vs =
     (case vs of
        [] \<Rightarrow> None
      | h # _ \<Rightarrow> if vs = [h, h - 1, h - 2, h - 3, h - 4] then Some h
                 else if vs = [13, 4, 3, 2, 1] then Some 4 else None)"

definition ref_rank5 :: "int list \<Rightarrow> descriptor" where
  "ref_rank5 cards =
     (let vs = rev (sort (map card_value cards));
          pattern = rev (sort (map (count_list vs) (remdups vs)));
          by_count = map snd (rev (sort (map (\<lambda>v. (count_list vs v, v)) (remdups vs))))
      in case ref_straight_top vs of
           Some h \<Rightarrow> if ref_is_flush cards then (STRAIGHT_FLUSH, [h]) else (STRAIGHT, [h])
         | None \<Rightarrow>
             if pattern = [4, 1] then (FOUR, by_count)
             else if pattern = [3, 2] then (FULL_HOUSE, by_count)
             else if ref_is_flush cards then (FLUSH, vs)
             else if pattern = [3, 1, 1] then (THREE, by_count)
             else if pattern = [2, 2, 1] then (TWO_PAIR, by_count)
             else if pattern = [2, 1, 1, 1] then (PAIR, by_count)
             else (HIGH_CARD, vs))"

definition five_card_hands :: "int list \<Rightarrow> int list list" where
  "five_card_hands cards = filter (\<lambda>h. length h = 5) (subseqs cards)"

definition ref_best :: "int list \<Rightarrow> descriptor option" where
  "ref_best cards =
     fold (\<lambda>h best. case best of
                       None \<Rightarrow> Some (ref_rank5 h)
                     | Some b \<Rightarrow> if descriptor_lt b (ref_rank5 h) then Some (ref_rank5 h)
                                 else Some b)
          (five_card_hands cards) None"

definition poker_equivalent :: "int list \<Rightarrow> int list \<Rightarrow> bool" where
  "poker_equivalent a b = (ref_best a = ref_best b)"

text \<open>
  The number of values that follow the category in the descriptor of a five-card hand: the
  top of a straight or straight flush; the quads and a kicker; the trips and the pair of a
  full house; the trips and two kickers; the two pairs and a kicker; the pair and three
  kickers; the five values of a flush or of a high card.
\<close>

fun ref_arity :: "Hand \<Rightarrow> nat" where
  "ref_arity STRAIGHT_FLUSH = 1"
| "ref_arity FOUR = 2"
| "ref_arity FULL_HOUSE = 2"
| "ref_arity FLUSH = 5"
| "ref_arity STRAIGHT = 1"
| "ref_arity THREE = 3"
| "ref_arity TWO_PAIR = 3"
| "ref_arity PAIR = 4"
| "ref_arity HIGH_CARD = 5"

definition has_ref_arity :: "descriptor \<Rightarrow> bool" where
  "has_ref_arity d \<longleftrightarrow> length (snd d) = ref_arity (fst d)"

section \<open>Auxiliary notions for the sequence finder\<close>

text \<open>
  The keys of the dictionary of \<open>find_max_sequence\<close> once the ace is also registered under
  0, the card kept for a key (the last card supplied with that rank value), and the run
  that the loop selects from the sorted keys.
\<close>

definition seq_keys :: "int list \<Rightarrow> int set" where
  "seq_keys cards =
     card_value ` set cards \<union> (if 13 \<in> card_value ` set cards then {0} else {})"

definition representative :: "int list \<Rightarrow> int \<Rightarrow> int" where
  "representative cards v =
     last (filter (\<lambda>c. card_value c = (if v = 0 then 13 else v)) cards)"

definition top_run :: "Cards \<Rightarrow> Cards list \<Rightarrow> Cards list" where
  "top_run c cs =
     (let max_sequence = last (py_sorted length False (split_runs c cs [c] []))
      in drop (length max_sequence - 5) max_sequence)"

definition longest_run :: "int list \<Rightarrow> int list" where
  "longest_run vs =
     (case map (\<lambda>v. (v, 0)) vs of [] \<Rightarrow> [] | c # cs \<Rightarrow> map fst (top_run c cs))"

section \<open>Auxiliary notions for five-card hands\<close>

text \<open>
  A five-card hand, the card of a rank value in a suit, the value sets of the ten straights
  named by their top (the wheel by 4), and the descriptors of the nine categories.
\<close>

definition five_cards :: "int list \<Rightarrow> bool" where
  "five_cards cards \<longleftrightarrow> length cards = 5 \<and> distinct cards \<and> set cards \<subseteq> {0..51}"

definition card_id :: "int \<Rightarrow> int \<Rightarrow> int" where
  "card_id v s = v mod 13 + 13 * s"

definition straight_values :: "int \<Rightarrow> int set" where
  "straight_values h = (if h = 4 then {13, 1, 2, 3, 4} else {h - 4, h - 3, h - 2, h - 1, h})"

text \<open>The descriptors of five-card hands, category by category.\<close>

definition rank_values :: "int set" where
  "rank_values = {1..13}"

definition straight_sets :: "int set set" where
  "straight_sets = straight_values ` {4..13}"

definition top_descriptors :: "Hand \<Rightarrow> descriptor set" where
  "top_descriptors c = (\<lambda>h. (c, [h])) ` {4..13}"

definition two_value_descriptors :: "Hand \<Rightarrow> descriptor set" where
  "two_value_descriptors c =
     (\<lambda>(q, k). (c, [q, k])) ` (SIGMA q:rank_values. rank_values - {q})"

definition kicker_descriptors :: "Hand \<Rightarrow> nat \<Rightarrow> descriptor set" where
  "kicker_descriptors c n =
     (\<lambda>(t, K). (c, t # rev (sorted_list_of_set K))) `
       (SIGMA t:rank_values. {K. K \<subseteq> rank_values - {t} \<and> card K = n})"

definition two_pair_descriptors :: "descriptor set" where
  "two_pair_descriptors =
     (\<lambda>(P, k). (TWO_PAIR, rev (sorted_list_of_set P) @ [k])) `
       (SIGMA P:{P. P \<subseteq> rank_values \<and> card P = 2}. rank_values - P)"

definition high_descriptors :: "Hand \<Rightarrow> descriptor set" where
  "high_descriptors c =
     (\<lambda>K. (c, rev (sorted_list_of_set K))) `
       ({K. K \<subseteq> rank_values \<and> card K = 5} - straight_sets)"

definition five_card_descriptors :: "descriptor set" where
  "five_card_descriptors =
     top_descriptors STRAIGHT_FLUSH \<union> two_value_descriptors FOUR \<union>
     two_value_descriptors FULL_HOUSE \<union> high_descriptors FLUSH \<union>
     top_descriptors STRAIGHT \<union> kicker_descriptors THREE 2 \<union> two_pair_descriptors \<union>
     kicker_descriptors PAIR 3 \<union> high_descriptors HIGH_CARD"

section \<open>Basic facts\<close>

lemma card_value_range: "1 \<le> card_value c \<and> card_value c \<le> 13"
  unfolding card_value_def
  using pos_mod_sign [of 13 c] pos_mod_bound [of 13 c] by auto

lemma card_value_of_value: "1 \<le> v \<Longrightarrow> v \<le> 13 \<Longrightarrow> card_value v = v"
  unfolding card_value_def by (cases "v = 13") auto

lemma card_value_idem: "card_value (card_value c) = card_value c"
  using card_value_range [of c] by (simp add: card_value_of_value)

lemma py_bind_Inr [simp]: "py_bind (Inr x) f = f x"
  by (simp add: py_bind_def)

lemma py_bind_Inl [simp]: "py_bind (Inl e) f = Inl e"
  by (simp add: py_bind_def)

lemma item0_Cons [simp]: "item0 (x # xs) = Inr x"
  by (simp add: item0_def)

lemma item0_Nil [simp]: "item0 [] = Inl IndexError"
  by (simp add: item0_def)

lemma set_py_sorted [simp]: "set (py_sorted k r xs) = set xs"
  by (simp add: py_sorted_def)

lemma mset_py_sorted [simp]: "mset (py_sorted k r xs) = mset xs"
  by (simp add: py_sorted_def)

lemma length_py_sorted [simp]: "length (py_sorted k r xs) = length xs"
  by (simp add: py_sorted_def)

lemma py_sorted_desc: "sorted_wrt (\<lambda>p q. k q \<le> k p) (py_sorted k True xs)"
proof -
  have "sorted (map k (sort_key k (rev xs)))" by simp
  then have "sorted_wrt (\<lambda>p q. k p \<le> k q) (sort_key k (rev xs))"
    by (simp add: sorted_wrt_map)
  then show ?thesis
    by (simp add: py_sorted_def sorted_wrt_rev)
qed

text \<open>The counts of a Counter.\<close>

lemma map_of_counter_add:
  "map_of (counter_add x d) =
     (map_of d)(x \<mapsto> (case map_of d x of None \<Rightarrow> 1 | Some n \<Rightarrow> n + 1))"
  by (simp add: counter_add_def update_conv')

lemma map_of_fold_counter_add:
  "map_of (fold counter_add xs d) k =
     (if k \<in> set xs
      then Some (count_list xs k + (case map_of d k of None \<Rightarrow> 0 | Some n \<Rightarrow> n))
      else map_of d k)"
proof (induction xs arbitrary: d)
  case Nil
  then show ?case by simp
next
  case (Cons x xs)
  have "map_of (fold counter_add (x # xs) d) k = map_of (fold counter_add xs (counter_add x d)) k"
    by simp
  also have "\<dots> = (if k \<in> set xs
      then Some (count_list xs k + (case map_of (counter_add x d) k of None \<Rightarrow> 0 | Some n \<Rightarrow> n))
      else map_of (counter_add x d) k)"
    by (rule Cons.IH)
  finally show ?case
    by (auto simp: map_of_counter_add split: option.splits)
qed

lemma map_of_Counter:
  "map_of (Counter xs) k = (if k \<in> set xs then Some (count_list xs k) else None)"
  by (simp add: Counter_def map_of_fold_counter_add)

lemma distinct_fold_counter_add:
  "distinct (map fst d) \<Longrightarrow> distinct (map fst (fold counter_add xs d))"
  by (induction xs arbitrary: d) (simp_all add: counter_add_def distinct_update)

lemma distinct_Counter: "distinct (map fst (Counter xs))"
  by (simp add: Counter_def distinct_fold_counter_add)

lemma Counter_mem: "(k, n) \<in> set (Counter xs) \<longleftrightarrow> k \<in> set xs \<and> n = count_list xs k"
  using map_of_eq_Some_iff [OF distinct_Counter, of xs k n]
  by (auto simp: map_of_Counter split: if_splits)

lemma keys_Counter: "fst ` set (Counter xs) = set xs"
proof -
  have "fst ` set (Counter xs) = dom (map_of (Counter xs))"
    by (simp add: dom_map_of_conv_image_fst)
  also have "\<dots> = set xs"
    by (auto simp: map_of_Counter dom_def)
  finally show ?thesis .
qed

lemma Counter_eq_Nil: "Counter xs = [] \<longleftrightarrow> xs = []"
  using keys_Counter [of xs] by (metis image_is_empty set_empty)

lemma length_Counter: "length (Counter xs) = card (set xs)"
proof -
  have "length (Counter xs) = length (map fst (Counter xs))" by simp
  also have "\<dots> = card (set (map fst (Counter xs)))"
    using distinct_Counter [of xs] by (simp only: distinct_card)
  also have "\<dots> = card (set xs)"
    by (simp add: keys_Counter)
  finally show ?thesis .
qed

text \<open>The n most common entries dominate the others.\<close>

lemma most_common_subset: "set (most_common n d) \<subseteq> set d"
  unfolding most_common_def using set_take_subset [of n "py_sorted snd True d"] by simp

lemma groups_fold:
  "fold (\<lambda>(card, n) groups. groups(n := groups n @ [card])) ps g m =
     g m @ map fst (filter (\<lambda>p. snd p = m) ps)"
  by (induction ps arbitrary: g) (auto split: prod.splits)

lemma group_duplicates_eq:
  "group_duplicates hand m =
     map fst (filter (\<lambda>p. snd p = m) (most_common 2 (Counter (map card_value hand))))"
  by (simp add: group_duplicates_def groups_fold)

lemma group_duplicates_values: "set (group_duplicates hand m) \<subseteq> card_value ` set hand"
proof
  fix v assume "v \<in> set (group_duplicates hand m)"
  then obtain n where "(v, n) \<in> set (most_common 2 (Counter (map card_value hand)))"
    by (auto simp: group_duplicates_eq)
  then have "(v, n) \<in> set (Counter (map card_value hand))"
    using most_common_subset by blast
  then show "v \<in> card_value ` set hand"
    by (simp add: Counter_mem)
qed

subsection \<open>The most common entries of a counter; the flush detector\<close>

lemma distinct_py_sorted [simp]: "distinct (py_sorted k r xs) = distinct xs"
  by (simp add: py_sorted_def)

lemma most_common_1:
  assumes "d \<noteq> []"
  shows "\<exists>p. most_common 1 d = [p] \<and> p \<in> set d \<and> (\<forall>r\<in>set d. snd r \<le> snd p)"
proof -
  let ?ys = "py_sorted snd True d"
  have ne: "?ys \<noteq> []" using assms by (metis length_py_sorted length_0_conv)
  then obtain p rest where ys: "?ys = p # rest" by (cases ?ys) auto
  have "sorted_wrt (\<lambda>p q. snd q \<le> snd p) (p # rest)"
    using py_sorted_desc [of snd d] ys by simp
  then have "\<forall>r\<in>set (p # rest). snd r \<le> snd p" by auto
  moreover have "set (p # rest) = set d" using ys set_py_sorted [of snd True d] by simp
  ultimately show ?thesis
    unfolding most_common_def ys by auto
qed

lemma most_common_2:
  assumes "distinct d" and "2 \<le> length d"
  shows "\<exists>p q. most_common 2 d = [p, q] \<and> p \<noteq> q \<and> p \<in> set d \<and> q \<in> set d \<and>
           snd q \<le> snd p \<and> (\<forall>r\<in>set d. r \<noteq> p \<longrightarrow> r \<noteq> q \<longrightarrow> snd r \<le> snd q)"
proof -
  let ?ys = "py_sorted snd True d"
  have "2 \<le> length ?ys" using assms by simp
  then obtain p q rest where ys: "?ys = p # q # rest"
    by (cases ?ys; cases "tl ?ys") auto
  have "sorted_wrt (\<lambda>p q. snd q \<le> snd p) (p # q # rest)"
    using py_sorted_desc [of snd d] ys by simp
  then have dom: "snd q \<le> snd p" "\<forall>r\<in>set rest. snd r \<le> snd q" by auto
  have st: "set (p # q # rest) = set d" using ys set_py_sorted [of snd True d] by simp
  have "distinct (p # q # rest)" using ys assms(1) distinct_py_sorted [of snd True d] by simp
  then have "p \<noteq> q" by auto
  with dom st show ?thesis
    unfolding most_common_def ys by auto
qed

lemma count_sum_le: "finite K \<Longrightarrow> sum (count_list xs) K \<le> length xs"
proof -
  assume fin: "finite K"
  have "sum (count_list xs) K \<le> sum (count_list xs) (set xs \<union> K)"
    by (rule sum_mono2) (use fin in auto)
  also have "\<dots> = length xs"
    by (rule sum_count_set) (use fin in auto)
  finally show ?thesis .
qed

lemma count_two_le: "a \<noteq> b \<Longrightarrow> count_list xs a + count_list xs b \<le> length xs"
  using count_sum_le [of "{a, b}" xs] by simp

lemma flush_suite_top:
  assumes "hand \<noteq> []"
  shows "\<exists>s. (\<forall>t. count_list (map (\<lambda>c. c div 13) hand) t \<le> count_list (map (\<lambda>c. c div 13) hand) s) \<and>
            s \<in> (\<lambda>c. c div 13) ` set hand \<and>
            flush_suite hand =
              Inr (if count_list (map (\<lambda>c. c div 13) hand) s = 5 then Some s else None)"
proof -
  let ?suits = "map (\<lambda>c. c div 13) hand"
  let ?d = "Counter ?suits"
  have "?d \<noteq> []" using assms by (simp add: Counter_eq_Nil)
  from most_common_1 [OF this] obtain p where
    p: "most_common 1 ?d = [p]" "p \<in> set ?d" "\<forall>r\<in>set ?d. snd r \<le> snd p" by blast
  obtain s n where sn: "p = (s, n)" by (cases p)
  have mem: "s \<in> set ?suits" and n: "n = count_list ?suits s"
    using p(2) by (simp_all add: sn Counter_mem)
  have "count_list ?suits t \<le> count_list ?suits s" for t
  proof (cases "t \<in> set ?suits")
    case True
    then have "(t, count_list ?suits t) \<in> set ?d" by (simp add: Counter_mem)
    with p(3) show ?thesis by (force simp: sn n)
  next
    case False
    then show ?thesis by (simp add: count_list_0_iff)
  qed
  moreover have "flush_suite hand = Inr (if count_list ?suits s = 5 then Some s else None)"
    unfolding flush_suite_def Let_def p(1) by (simp add: sn n)
  ultimately show ?thesis using mem by auto
qed

subsection \<open>The sequence finder in closed form\<close>

lemma card_value_nonzero: "card_value c \<noteq> 0"
  using card_value_range [of c] by simp

lemma map_of_card_dict_fold:
  "map_of (fold (\<lambda>c d. AList.update (card_value c) (card_value c, c) d) cards d) v =
     (if v \<in> card_value ` set cards
      then Some (v, last (filter (\<lambda>c. card_value c = v) cards))
      else map_of d v)"
proof (induction cards arbitrary: d)
  case Nil
  then show ?case by simp
next
  case (Cons c cs)
  show ?case
    by (auto simp: Cons.IH update_conv' filter_empty_conv)
qed

lemma map_of_card_dict:
  "map_of (card_dict_of cards) v =
     (if v \<in> card_value ` set cards
      then Some (v, last (filter (\<lambda>c. card_value c = v) cards))
      else None)"
  by (simp add: card_dict_of_def map_of_card_dict_fold)

lemma distinct_card_dict_fold:
  "distinct (map fst d) \<Longrightarrow>
   distinct (map fst (fold (\<lambda>c d. AList.update (card_value c) (card_value c, c) d) cards d))"
  by (induction cards arbitrary: d) (simp_all add: distinct_update)

lemma distinct_card_dict: "distinct (map fst (card_dict_of cards))"
  by (simp add: card_dict_of_def distinct_card_dict_fold)

lemma keys_card_dict: "fst ` set (card_dict_of cards) = card_value ` set cards"
proof -
  have "fst ` set (card_dict_of cards) = dom (map_of (card_dict_of cards))"
    by (simp add: dom_map_of_conv_image_fst)
  also have "\<dots> = card_value ` set cards"
    by (auto simp: map_of_card_dict dom_def)
  finally show ?thesis .
qed

lemma length_card_dict: "length (card_dict_of cards) = card (card_value ` set cards)"
proof -
  have "length (card_dict_of cards) = length (map fst (card_dict_of cards))" by simp
  also have "\<dots> = card (set (map fst (card_dict_of cards)))"
    using distinct_card_dict [of cards] by (simp only: distinct_card)
  also have "\<dots> = card (card_value ` set cards)"
    by (simp add: keys_card_dict)
  finally show ?thesis .
qed

text \<open>The dictionary after the ace has been registered under 0 as well.\<close>

lemma ace_dict_props:
  fixes cards :: "int list"
  defines "d \<equiv> (case map_of (card_dict_of cards) 13 of
                    None \<Rightarrow> card_dict_of cards
                  | Some ace \<Rightarrow> AList.update 0 (0, snd ace) (card_dict_of cards))"
  shows "distinct (map fst d)"
    and "fst ` set d = seq_keys cards"
    and "\<And>e. e \<in> set d \<Longrightarrow> snd e = (fst e, representative cards (fst e))"
proof -
  have m: "map_of d v =
      (if v = 0 \<and> 13 \<in> card_value ` set cards then Some (0, representative cards 0)
       else if v \<in> card_value ` set cards then Some (v, representative cards v)
       else None)" for v
    using card_value_nonzero
    by (auto simp: d_def map_of_card_dict update_conv' representative_def)
  show dist: "distinct (map fst d)"
    by (simp add: d_def distinct_card_dict distinct_update split: option.split)
  have "fst ` set d = dom (map_of d)"
    by (simp add: dom_map_of_conv_image_fst)
  also have "\<dots> = seq_keys cards"
    by (auto simp: m dom_def seq_keys_def split: if_splits)
  finally show "fst ` set d = seq_keys cards" .
  fix e assume "e \<in> set d"
  then have "map_of d (fst e) = Some (snd e)"
    using dist by simp
  then show "snd e = (fst e, representative cards (fst e))"
    by (auto simp: m split: if_splits)
qed

lemma finite_seq_keys [simp]: "finite (seq_keys cards)"
  by (simp add: seq_keys_def)

lemma sorted_fst_of_sorted: "sorted (xs :: (int \<times> int) list) \<Longrightarrow> sorted (map fst xs)"
  by (induction xs) (auto simp: less_eq_prod_def)

lemma sorted_cards_eq:
  fixes cards :: "int list"
  defines "d \<equiv> (case map_of (card_dict_of cards) 13 of
                    None \<Rightarrow> card_dict_of cards
                  | Some ace \<Rightarrow> AList.update 0 (0, snd ace) (card_dict_of cards))"
  shows "sort (map snd d) =
           map (\<lambda>v. (v, representative cards v)) (sorted_list_of_set (seq_keys cards))"
proof -
  note props = ace_dict_props [where cards = cards, folded d_def]
  let ?L = "sort (map snd d)"
  have fst_snd: "map fst (map snd d) = map fst d"
    using props(3) by (simp add: map_idI)
  have "mset (map fst ?L) = mset (map fst d)"
    using fst_snd by (metis mset_map mset_sort)
  then have dist: "distinct (map fst ?L)" and st: "set (map fst ?L) = seq_keys cards"
    using props(1,2) by (metis mset_eq_imp_distinct_iff, metis mset_eq_setD set_map)
  have "sorted (map fst ?L)"
    by (rule sorted_fst_of_sorted) simp
  with dist st have keys: "map fst ?L = sorted_list_of_set (seq_keys cards)"
    by (intro sorted_distinct_set_unique) simp_all
  have "(fst e, representative cards (fst e)) = e" if "e \<in> set ?L" for e
  proof -
    from that obtain e' where "e' \<in> set d" "e = snd e'" by auto
    then show ?thesis using props(3) [of e'] by simp
  qed
  then have "map (\<lambda>e. (fst e, representative cards (fst e))) ?L = ?L"
    by (intro map_idI) simp
  then have "?L = map (\<lambda>e. (fst e, representative cards (fst e))) ?L"
    by simp
  also have "\<dots> = map (\<lambda>v. (v, representative cards v)) (map fst ?L)"
    by (simp add: comp_def)
  finally show ?thesis using keys by simp
qed

text \<open>The loop and the choice of the run look at the values only.\<close>

lemma split_runs_map:
  assumes "\<And>x. fst (h x) = fst x"
  shows "split_runs (h p) (map h cs) (map h sq) (map (map h) sqs)
           = map (map h) (split_runs p cs sq sqs)"
proof (induction cs arbitrary: p sq sqs)
  case Nil
  then show ?case by simp
next
  case (Cons a cs)
  show ?case
  proof (cases "fst a = fst p + 1")
    case True
    then have "split_runs (h p) (map h (a # cs)) (map h sq) (map (map h) sqs)
        = split_runs (h a) (map h cs) (map h (sq @ [a])) (map (map h) sqs)"
      by (simp add: assms)
    also have "\<dots> = map (map h) (split_runs a cs (sq @ [a]) sqs)"
      by (rule Cons.IH)
    finally show ?thesis using True by simp
  next
    case False
    then have "split_runs (h p) (map h (a # cs)) (map h sq) (map (map h) sqs)
        = split_runs (h a) (map h cs) (map h [a]) (map (map h) (sqs @ [sq]))"
      by (simp add: assms)
    also have "\<dots> = map (map h) (split_runs a cs [a] (sqs @ [sq]))"
      by (rule Cons.IH)
    finally show ?thesis using False by simp
  qed
qed

lemma insort_key_map:
  "insort_key f (g x) (map g xs) = map g (insort_key (\<lambda>y. f (g y)) x xs)"
  by (induction xs) simp_all

lemma sort_key_map: "sort_key f (map g xs) = map g (sort_key (\<lambda>y. f (g y)) xs)"
  by (induction xs) (simp_all add: insort_key_map)

lemma py_sorted_length_map:
  "py_sorted length False (map (map h) xss) = map (map h) (py_sorted length False xss)"
  by (simp add: py_sorted_def sort_key_map)

lemma split_runs_nonempty: "split_runs p cs sq sqs \<noteq> []"
  by (induction cs arbitrary: p sq sqs) simp_all

lemma split_runs_concat: "concat (split_runs p cs sq sqs) = concat sqs @ sq @ cs"
  by (induction cs arbitrary: p sq sqs) simp_all

lemma split_runs_inv:
  assumes "sq \<noteq> []" and "last sq = p"
    and "successively (\<lambda>a b. fst b = fst a + 1) sq"
    and "\<forall>s\<in>set sqs. s \<noteq> [] \<and> successively (\<lambda>a b. fst b = fst a + 1) s"
  shows "\<forall>s\<in>set (split_runs p cs sq sqs). s \<noteq> [] \<and> successively (\<lambda>a b. fst b = fst a + 1) s"
  using assms
proof (induction cs arbitrary: p sq sqs)
  case Nil
  then show ?case by simp
next
  case (Cons c cs)
  show ?case
  proof (cases "fst c = fst p + 1")
    case True
    have "successively (\<lambda>a b. fst b = fst a + 1) (sq @ [c])"
      using Cons.prems True by (simp add: successively_append_iff)
    then have "\<forall>s\<in>set (split_runs c cs (sq @ [c]) sqs).
        s \<noteq> [] \<and> successively (\<lambda>a b. fst b = fst a + 1) s"
      using Cons.prems by (intro Cons.IH) simp_all
    then show ?thesis using True by simp
  next
    case False
    have "\<forall>s\<in>set (split_runs c cs [c] (sqs @ [sq])).
        s \<noteq> [] \<and> successively (\<lambda>a b. fst b = fst a + 1) s"
      using Cons.prems by (intro Cons.IH) simp_all
    then show ?thesis using False by simp
  qed
qed

lemma length_le_concat: "s \<in> set S \<Longrightarrow> length s \<le> length (concat S)"
  by (induction S) auto

lemma drop_last5_nonempty: "ms \<noteq> [] \<Longrightarrow> drop (length ms - 5) ms \<noteq> []"
  by (cases ms) auto

lemma successively_drop: "successively P xs \<Longrightarrow> successively P (drop n xs)"
  by (metis append_take_drop_id successively_append_iff)

lemma py_sorted_nonempty: "xs \<noteq> [] \<Longrightarrow> py_sorted k r xs \<noteq> []"
  by (metis length_py_sorted length_0_conv)

text \<open>The run chosen by the loop, cut to its last five entries.\<close>

lemma top_run_props:
  shows "top_run c cs \<noteq> []"
    and "successively (\<lambda>a b. fst b = fst a + 1) (top_run c cs)"
    and "set (top_run c cs) \<subseteq> set (c # cs)"
    and "length (top_run c cs) \<le> length (c # cs)"
    and "length (top_run c cs) \<le> 5"
proof -
  let ?S = "split_runs c cs [c] []"
  define ms where "ms = last (py_sorted length False ?S)"
  have tr: "top_run c cs = drop (length ms - 5) ms"
    by (simp add: top_run_def ms_def Let_def)
  have "py_sorted length False ?S \<noteq> []"
    by (rule py_sorted_nonempty) (rule split_runs_nonempty)
  then have "ms \<in> set (py_sorted length False ?S)"
    unfolding ms_def by (rule last_in_set)
  then have mem: "ms \<in> set ?S" by simp
  have "\<forall>s\<in>set ?S. s \<noteq> [] \<and> successively (\<lambda>a b. fst b = fst a + 1) s"
    by (rule split_runs_inv) simp_all
  with mem have ne: "ms \<noteq> []" and su: "successively (\<lambda>a b. fst b = fst a + 1) ms" by auto
  have cc: "concat ?S = c # cs" by (simp add: split_runs_concat)
  from mem have "set ms \<subseteq> set (concat ?S)" by auto
  then have sub: "set ms \<subseteq> set (c # cs)" by (simp only: cc)
  from mem have "length ms \<le> length (concat ?S)" by (rule length_le_concat)
  then have len: "length ms \<le> length (c # cs)" by (simp only: cc)
  show "top_run c cs \<noteq> []" unfolding tr using ne by (rule drop_last5_nonempty)
  show "successively (\<lambda>a b. fst b = fst a + 1) (top_run c cs)"
    unfolding tr using su by (rule successively_drop)
  show "set (top_run c cs) \<subseteq> set (c # cs)"
    unfolding tr using sub set_drop_subset [of "length ms - 5" ms] by blast
  show "length (top_run c cs) \<le> length (c # cs)"
    unfolding tr using len by simp
  show "length (top_run c cs) \<le> 5"
    unfolding tr by simp
qed

lemma top_run_map:
  assumes "\<And>x. fst (h x) = fst x"
  shows "top_run (h c) (map h cs) = map h (top_run c cs)"
proof -
  let ?S = "split_runs c cs [c] []"
  have "split_runs (h c) (map h cs) (map h [c]) (map (map h) []) = map (map h) ?S"
    using assms by (rule split_runs_map)
  then have S: "split_runs (h c) (map h cs) [h c] [] = map (map h) ?S" by simp
  have "py_sorted length False ?S \<noteq> []"
    by (rule py_sorted_nonempty) (rule split_runs_nonempty)
  then have "last (py_sorted length False (map (map h) ?S))
      = map h (last (py_sorted length False ?S))"
    by (simp add: py_sorted_length_map last_map)
  then show ?thesis
    by (simp add: top_run_def Let_def S drop_map)
qed

lemma longest_run_Nil [simp]: "longest_run [] = []"
  by (simp add: longest_run_def)

lemma longest_run_props:
  assumes "vs \<noteq> []"
  shows "longest_run vs \<noteq> []"
    and "successively (\<lambda>a b. b = a + 1) (longest_run vs)"
    and "set (longest_run vs) \<subseteq> set vs"
    and "length (longest_run vs) \<le> length vs"
    and "length (longest_run vs) \<le> 5"
proof -
  obtain v vs' where vs: "vs = v # vs'" using assms by (cases vs) auto
  define c where "c = (v, 0::int)"
  define cs where "cs = map (\<lambda>v. (v, 0::int)) vs'"
  have lr: "longest_run vs = map fst (top_run c cs)"
    by (simp add: longest_run_def vs c_def cs_def)
  have fs: "fst ` set (c # cs) = set vs"
    by (simp add: c_def cs_def vs image_image)
  note tr = top_run_props [of c cs]
  show "longest_run vs \<noteq> []" unfolding lr using tr(1) by simp
  show "successively (\<lambda>a b. b = a + 1) (longest_run vs)"
    unfolding lr using tr(2) by (simp add: successively_map)
  have "fst ` set (top_run c cs) \<subseteq> fst ` set (c # cs)"
    using tr(3) by (rule image_mono)
  then show "set (longest_run vs) \<subseteq> set vs"
    unfolding fs lr by simp
  have "length (c # cs) = length vs" by (simp add: cs_def vs)
  then show "length (longest_run vs) \<le> length vs"
    unfolding lr using tr(4) by simp
  show "length (longest_run vs) \<le> 5"
    unfolding lr using tr(5) by simp
qed

lemma seq_keys_nonempty: "cards \<noteq> [] \<Longrightarrow> sorted_list_of_set (seq_keys cards) \<noteq> []"
proof -
  assume "cards \<noteq> []"
  then have "seq_keys cards \<noteq> {}" by (simp add: seq_keys_def)
  then have "set (sorted_list_of_set (seq_keys cards)) \<noteq> {}" by simp
  then show ?thesis by (simp only: set_empty not_False_eq_True)
qed

lemma find_max_sequence_top_run:
  "find_max_sequence cards =
     (if length (card_dict_of cards) = 1 then Inr []
      else case sort (map snd (case map_of (card_dict_of cards) 13 of
                    None \<Rightarrow> card_dict_of cards
                  | Some ace \<Rightarrow> AList.update 0 (0, snd ace) (card_dict_of cards))) of
             [] \<Rightarrow> Inl IndexError
           | c # cs \<Rightarrow> Inr [map fst (top_run c cs), map snd (top_run c cs)])"
proof -
  have "(let sequences = split_runs c cs [c] [];
             max_sequence = last (py_sorted length False sequences);
             max_sequence = drop (length max_sequence - 5) max_sequence
         in Inr (if max_sequence = [] then []
                 else [map fst max_sequence, map snd max_sequence]) :: py_error + int list list)
      = Inr [map fst (top_run c cs), map snd (top_run c cs)]" for c cs
    using top_run_props(1) [of c cs] by (simp add: top_run_def Let_def)
  then show ?thesis
    unfolding find_max_sequence_def by (simp add: Let_def cong: list.case_cong)
qed

lemma find_max_sequence_eq:
  "find_max_sequence cards =
     (if card (card_value ` set cards) = 1 then Inr []
      else if cards = [] then Inl IndexError
      else Inr [longest_run (sorted_list_of_set (seq_keys cards)),
                map (representative cards) (longest_run (sorted_list_of_set (seq_keys cards)))])"
proof (cases "cards = []")
  case True
  then show ?thesis by (simp add: find_max_sequence_def card_dict_of_def)
next
  case False
  let ?vs = "sorted_list_of_set (seq_keys cards)"
  define h :: "Cards \<Rightarrow> Cards" where "h = (\<lambda>e. (fst e, representative cards (fst e)))"
  obtain v vs' where vs: "?vs = v # vs'"
    using seq_keys_nonempty [OF False] by (cases ?vs) auto
  define c where "c = (v, 0::int)"
  define cs where "cs = map (\<lambda>v. (v, 0::int)) vs'"
  have hfst: "\<And>x. fst (h x) = fst x" by (simp add: h_def)
  have lr: "longest_run ?vs = map fst (top_run c cs)"
    by (simp add: longest_run_def vs c_def cs_def)
  have sorted: "sort (map snd (case map_of (card_dict_of cards) 13 of
                    None \<Rightarrow> card_dict_of cards
                  | Some ace \<Rightarrow> AList.update 0 (0, snd ace) (card_dict_of cards)))
          = h c # map h cs"
    by (simp add: sorted_cards_eq vs comp_def h_def c_def cs_def)
  have tr: "top_run (h c) (map h cs) = map h (top_run c cs)"
    using hfst by (rule top_run_map)
  have "map fst (map h (top_run c cs)) = longest_run ?vs"
    by (simp add: lr h_def comp_def)
  moreover have "map snd (map h (top_run c cs)) = map (representative cards) (longest_run ?vs)"
    by (simp add: lr h_def comp_def)
  ultimately show ?thesis
    unfolding find_max_sequence_top_run sorted length_card_dict
    using False by (simp add: tr)
qed

subsection \<open>The branches of the ranker and its failures\<close>

lemma item_last_nonempty [simp]: "xs \<noteq> [] \<Longrightarrow> item_last xs = Inr (last xs)"
  by (simp add: item_last_def)

lemma item0_hd: "xs \<noteq> [] \<Longrightarrow> item0 xs = Inr (hd xs)"
  by (cases xs) simp_all

lemma unpack2_two [simp]: "unpack2 [a, b] = Inr (a, b)"
  by (simp add: unpack2_def)

lemma unpack2_Nil [simp]: "unpack2 [] = Inl ValueError"
  by (simp add: unpack2_def)

lemma flush_suite_Inr: "hand \<noteq> [] \<Longrightarrow> \<exists>r. flush_suite hand = Inr r"
  using flush_suite_top [of hand] by blast

lemma assess_hand_Nil: "assess_hand [] = Inl IndexError"
  by (simp add: assess_hand_def find_max_sequence_eq)

lemma assess_hand_single:
  "card (card_value ` set cards) = 1 \<Longrightarrow> assess_hand cards = Inl ValueError"
  by (simp add: assess_hand_def find_max_sequence_eq)

text \<open>The ranker on an input with at least two rank values, where the sequence finder returns two tuples.\<close>

lemma assess_hand_body:
  assumes "cards \<noteq> []" and "card (card_value ` set cards) \<noteq> 1"
  defines "sv \<equiv> longest_run (sorted_list_of_set (seq_keys cards))"
  defines "dup \<equiv> group_duplicates cards"
  shows "assess_hand cards =
     (if length sv = 5 \<and> flush_suite (map (representative cards) sv) \<noteq> Inr None
      then Inr (STRAIGHT_FLUSH, [last sv])
      else if dup 4 \<noteq> [] then
        py_bind (item0 (select_side_cards cards (dup 4))) (\<lambda>k. Inr (FOUR, [hd (dup 4), k]))
      else if dup 3 \<noteq> [] \<and> dup 2 \<noteq> [] then Inr (FULL_HOUSE, [hd (dup 3), hd (dup 2)])
      else if flush_suite cards \<noteq> Inr None
        then Inr (FLUSH, take 5 (sort_cards cards (projr (flush_suite cards)) True True))
      else assess_rest cards sv dup)"
proof -
  have svne: "sv \<noteq> []"
    unfolding sv_def using seq_keys_nonempty [OF assms(1)] by (rule longest_run_props(1))
  then have scne: "map (representative cards) sv \<noteq> []" by simp
  obtain r where r: "flush_suite (map (representative cards) sv) = Inr r"
    using flush_suite_Inr [OF scne] by blast
  obtain r' where r': "flush_suite cards = Inr r'"
    using flush_suite_Inr [OF assms(1)] by blast
  have fms: "find_max_sequence cards = Inr [sv, map (representative cards) sv]"
    using assms(1,2) by (simp add: find_max_sequence_eq sv_def)
  show ?thesis
    unfolding assess_hand_def fms
    using svne by (simp add: r r' Let_def item0_hd flip: dup_def)
qed

text \<open>The two most common rank values of a hand with at least two rank values.\<close>

lemma top_two:
  assumes "2 \<le> card (card_value ` set cards)"
  obtains a b where "a \<noteq> b" and "a \<in> card_value ` set cards" and "b \<in> card_value ` set cards"
    and "most_common 2 (Counter (map card_value cards))
           = [(a, count_list (map card_value cards) a), (b, count_list (map card_value cards) b)]"
    and "count_list (map card_value cards) b \<le> count_list (map card_value cards) a"
    and "\<And>v. v \<in> card_value ` set cards \<Longrightarrow> v \<noteq> a \<Longrightarrow> v \<noteq> b \<Longrightarrow>
           count_list (map card_value cards) v \<le> count_list (map card_value cards) b"
proof -
  let ?vals = "map card_value cards"
  let ?d = "Counter ?vals"
  have dk: "distinct (map fst ?d)" by (rule distinct_Counter)
  then have dd: "distinct ?d" by (simp add: distinct_map)
  have "2 \<le> length ?d" using assms by (simp add: length_Counter)
  from most_common_2 [OF dd this] obtain p q where
    pq: "most_common 2 ?d = [p, q]" "p \<noteq> q" "p \<in> set ?d" "q \<in> set ?d" "snd q \<le> snd p"
      "\<forall>r\<in>set ?d. r \<noteq> p \<longrightarrow> r \<noteq> q \<longrightarrow> snd r \<le> snd q"
    by blast
  obtain a na where p: "p = (a, na)" by (cases p)
  obtain b nb where q: "q = (b, nb)" by (cases q)
  have a: "a \<in> set ?vals" "na = count_list ?vals a" using pq(3) by (simp_all add: p Counter_mem)
  have b: "b \<in> set ?vals" "nb = count_list ?vals b" using pq(4) by (simp_all add: q Counter_mem)
  have ab: "a \<noteq> b" using pq(2) a(2) b(2) by (auto simp: p q)
  have rest: "count_list ?vals v \<le> count_list ?vals b"
    if "v \<in> card_value ` set cards" "v \<noteq> a" "v \<noteq> b" for v
  proof -
    have "(v, count_list ?vals v) \<in> set ?d" using that(1) by (simp add: Counter_mem)
    moreover have "(v, count_list ?vals v) \<noteq> p" "(v, count_list ?vals v) \<noteq> q"
      using that(2,3) by (simp_all add: p q)
    ultimately have "snd (v, count_list ?vals v) \<le> snd q" using pq(6) by blast
    then show ?thesis by (simp add: q b(2))
  qed
  show ?thesis
    using that [of a b] ab a b pq(1,5) rest by (simp add: p q)
qed

lemma group_duplicates_top_two:
  assumes "most_common 2 (Counter (map card_value cards)) = [(a, na), (b, nb)]"
  shows "group_duplicates cards m = (if na = m then [a] else []) @ (if nb = m then [b] else [])"
  by (simp add: group_duplicates_eq assms)

lemma select_side_cards_empty:
  "select_side_cards cards ex = [] \<longleftrightarrow> card_value ` set cards \<subseteq> card_value ` set ex"
proof -
  have "finite (card_value ` set cards - card_value ` set ex)" by simp
  then have "sorted_list_of_set (card_value ` set cards - card_value ` set ex) = []
      \<longleftrightarrow> card_value ` set cards - card_value ` set ex = {}"
    by (rule sorted_list_of_set_eq_Nil_iff)
  then show ?thesis by (simp add: select_side_cards_def)
qed

lemma card_value_group_duplicates:
  "card_value ` set (group_duplicates cards m) = set (group_duplicates cards m)"
proof -
  have "card_value v = v" if "v \<in> set (group_duplicates cards m)" for v
    using that group_duplicates_values [of cards m] card_value_idem by auto
  then show ?thesis by (simp add: image_def)
qed

lemma side_cards_group_empty:
  "select_side_cards cards (group_duplicates cards m) = []
     \<longleftrightarrow> card_value ` set cards \<subseteq> set (group_duplicates cards m)"
  by (simp add: select_side_cards_empty card_value_group_duplicates)

lemma card_seq_keys: "card (seq_keys cards) \<le> card (card_value ` set cards) + 1"
proof -
  have "seq_keys cards \<subseteq> insert 0 (card_value ` set cards)"
    by (auto simp: seq_keys_def)
  then have "card (seq_keys cards) \<le> card (insert 0 (card_value ` set cards))"
    by (intro card_mono) simp_all
  also have "\<dots> \<le> card (card_value ` set cards) + 1"
    by (simp add: card_insert_if)
  finally show ?thesis .
qed

lemma length_longest_run_keys:
  "length (longest_run (sorted_list_of_set (seq_keys cards))) \<le> card (card_value ` set cards) + 1"
proof (cases "cards = []")
  case True
  then show ?thesis by (simp add: seq_keys_def)
next
  case False
  have "length (longest_run (sorted_list_of_set (seq_keys cards)))
      \<le> length (sorted_list_of_set (seq_keys cards))"
    using seq_keys_nonempty [OF False] by (rule longest_run_props(4))
  also have "\<dots> = card (seq_keys cards)" by simp
  finally show ?thesis using card_seq_keys [of cards] by simp
qed

lemma flush_suite_needs_five:
  assumes "flush_suite cards \<noteq> Inr None" and "cards \<noteq> []"
  shows "5 \<le> length cards"
proof -
  from flush_suite_top [OF assms(2)] obtain s where
    s: "flush_suite cards = Inr (if count_list (map (\<lambda>c. c div 13) cards) s = 5 then Some s else None)"
    by blast
  with assms(1) have "count_list (map (\<lambda>c. c div 13) cards) s = 5" by (simp split: if_splits)
  moreover have "count_list (map (\<lambda>c. c div 13) cards) s \<le> length (map (\<lambda>c. c div 13) cards)"
    by (rule count_le_length)
  ultimately show ?thesis by simp
qed

lemma sort_cards_nonempty: "xs \<noteq> [] \<Longrightarrow> sort_cards xs None r True \<noteq> []"
  by (simp add: sort_cards_def py_sorted_nonempty)

lemma max_card_Inr: "xs \<noteq> [] \<Longrightarrow> max_card xs None True = Inr (last (sort_cards xs None False True))"
  by (simp add: max_card_def sort_cards_nonempty)

lemma min_card_Inr: "xs \<noteq> [] \<Longrightarrow> min_card xs True = Inr (hd (sort_cards xs None False True))"
  by (simp add: min_card_def sort_cards_nonempty item0_hd)

lemma assess_rest_error_iff:
  "(\<exists>e. assess_rest cards sv dup = Inl e) \<longleftrightarrow>
     length sv \<noteq> 5 \<and> dup 3 = [] \<and> length (dup 2) = 2 \<and> select_side_cards cards (dup 2) = []"
proof -
  have two: "dup 2 \<noteq> []" if "length (dup 2) = 2" using that by auto
  have one: "dup 2 \<noteq> []" if "length (dup 2) = 1" using that by auto
  have five: "sv \<noteq> []" if "length sv = 5" using that by auto
  show ?thesis
  proof (cases "select_side_cards cards (dup 2)")
    case Nil
    then show ?thesis
      by (auto simp: assess_rest_def Let_def item0_hd max_card_Inr min_card_Inr two one five)
  next
    case (Cons k ks)
    then show ?thesis
      by (auto simp: assess_rest_def Let_def item0_hd max_card_Inr min_card_Inr two one five)
  qed
qed

lemma assess_hand_error_branches:
  assumes "cards \<noteq> []" and "card (card_value ` set cards) \<noteq> 1"
  defines "sv \<equiv> longest_run (sorted_list_of_set (seq_keys cards))"
  defines "dup \<equiv> group_duplicates cards"
  shows "(\<exists>e. assess_hand cards = Inl e) \<longleftrightarrow>
     \<not> (length sv = 5 \<and> flush_suite (map (representative cards) sv) \<noteq> Inr None) \<and>
     (if dup 4 \<noteq> [] then select_side_cards cards (dup 4) = []
      else \<not> (dup 3 \<noteq> [] \<and> dup 2 \<noteq> []) \<and> flush_suite cards = Inr None \<and>
           length sv \<noteq> 5 \<and> dup 3 = [] \<and> length (dup 2) = 2 \<and>
           select_side_cards cards (dup 2) = [])"
proof -
  note body = assess_hand_body [OF assms(1,2), folded sv_def dup_def]
  show ?thesis
  proof (cases "select_side_cards cards (dup 4)")
    case Nil
    then show ?thesis
      unfolding body using assess_rest_error_iff [of cards sv dup] by auto
  next
    case (Cons k ks)
    then show ?thesis
      unfolding body using assess_rest_error_iff [of cards sv dup] by auto
  qed
qed

lemma count_two_values:
  assumes "set xs = {a, b}" and "a \<noteq> b"
  shows "count_list xs a + count_list xs b = length xs"
proof -
  have "sum (count_list xs) {a, b} = length xs"
    by (rule sum_count_set) (simp_all add: assms(1))
  then show ?thesis using assms(2) by simp
qed

lemma assess_hand_error_iff:
  "(\<exists>e. assess_hand cards = Inl e) \<longleftrightarrow>
     cards = [] \<or> card (card_value ` set cards) = 1 \<or>
     (\<exists>a b. a \<noteq> b \<and> card_value ` set cards = {a, b} \<and>
        count_list (map card_value cards) a = count_list (map card_value cards) b \<and>
        (count_list (map card_value cards) a = 2 \<or> count_list (map card_value cards) a = 4))"
  (is "?E \<longleftrightarrow> _ \<or> _ \<or> ?P")
proof (cases "cards = [] \<or> card (card_value ` set cards) = 1")
  case True
  then show ?thesis using assess_hand_Nil assess_hand_single [of cards] by auto
next
  case False
  then have ne: "cards \<noteq> []" and n1: "card (card_value ` set cards) \<noteq> 1" by auto
  let ?V = "card_value ` set cards"
  let ?cnt = "count_list (map card_value cards)"
  let ?sv = "longest_run (sorted_list_of_set (seq_keys cards))"
  let ?dup = "group_duplicates cards"
  have "card ?V \<noteq> 0" using ne by simp
  with n1 have c2: "2 \<le> card ?V" by linarith
  from top_two [OF c2] obtain a b where ab: "a \<noteq> b" "a \<in> ?V" "b \<in> ?V"
    and mc: "most_common 2 (Counter (map card_value cards)) = [(a, ?cnt a), (b, ?cnt b)]"
    by metis
  have dup: "?dup m = (if ?cnt a = m then [a] else []) @ (if ?cnt b = m then [b] else [])" for m
    using mc by (rule group_duplicates_top_two)
  have P: "?P \<longleftrightarrow> ?V = {a, b} \<and> ?cnt a = ?cnt b \<and> (?cnt a = 2 \<or> ?cnt a = 4)"
  proof
    assume ?P
    then obtain a' b' where p: "a' \<noteq> b'" "?V = {a', b'}" "?cnt a' = ?cnt b'"
      "?cnt a' = 2 \<or> ?cnt a' = 4" by blast
    from p(2) ab have "(a = a' \<and> b = b') \<or> (a = b' \<and> b = a')" by auto
    with p show "?V = {a, b} \<and> ?cnt a = ?cnt b \<and> (?cnt a = 2 \<or> ?cnt a = 4)" by auto
  next
    assume "?V = {a, b} \<and> ?cnt a = ?cnt b \<and> (?cnt a = 2 \<or> ?cnt a = 4)"
    with ab(1) show ?P by blast
  qed
  note br = assess_hand_error_branches [OF ne n1]
  show ?thesis
  proof (cases "?V = {a, b}")
    case True
    then have "card ?V = 2" using ab(1) by simp
    then have len: "length ?sv \<le> 3" using length_longest_run_keys [of cards] by simp
    have sub: "?V \<subseteq> set (?dup m) \<longleftrightarrow> ?cnt a = m \<and> ?cnt b = m" for m
      using ab(1) by (auto simp: dup True)
    have total: "?cnt a + ?cnt b = length cards"
      using count_two_values [of "map card_value cards" a b] True ab(1) by simp
    have fl: "flush_suite cards = Inr None" if "?cnt a = 2" "?cnt b = 2"
    proof (rule ccontr)
      assume "flush_suite cards \<noteq> Inr None"
      then have "5 \<le> length cards" using ne by (rule flush_suite_needs_five)
      with total that show False by simp
    qed
    have "?E \<longleftrightarrow> ?cnt a = ?cnt b \<and> (?cnt a = 2 \<or> ?cnt a = 4)"
    proof (cases "?cnt a = 4 \<or> ?cnt b = 4")
      case True
      then have "?dup 4 \<noteq> []" by (auto simp: dup)
      then have "?E \<longleftrightarrow> ?V \<subseteq> set (?dup 4)"
        unfolding br using len by (simp add: side_cards_group_empty)
      then show ?thesis unfolding sub using True by auto
    next
      case False
      then have d4: "?dup 4 = []" by (simp add: dup)
      have l2: "length (?dup 2) = 2 \<longleftrightarrow> ?cnt a = 2 \<and> ?cnt b = 2" by (simp add: dup)
      have d3: "?dup 3 = []" if "?cnt a = 2" "?cnt b = 2" using that by (simp add: dup)
      have "?E \<longleftrightarrow> ?cnt a = 2 \<and> ?cnt b = 2"
        unfolding br using len d4 l2 d3 fl sub [of 2]
        by (auto simp: side_cards_group_empty)
      then show ?thesis using False by auto
    qed
    then show ?thesis using False P True by simp
  next
    case nt: False
    then obtain c where c: "c \<in> ?V" "c \<noteq> a" "c \<noteq> b" using ab(2,3) by blast
    have "\<not> ?V \<subseteq> set (?dup m)" for m
      using c by (auto simp: dup)
    then have "\<not> ?E"
      unfolding br by (simp add: side_cards_group_empty)
    then show ?thesis using False P nt by simp
  qed
qed

subsection \<open>Well-formed hands\<close>

lemma cards_of_value:
  "{c. 0 \<le> c \<and> c \<le> 51 \<and> card_value c = v} \<subseteq> {v mod 13, v mod 13 + 13, v mod 13 + 26, v mod 13 + 39}"
proof
  fix c assume "c \<in> {c. 0 \<le> c \<and> c \<le> 51 \<and> card_value c = v}"
  then have c: "0 \<le> c" "c \<le> 51" "card_value c = v" by auto
  have m: "c mod 13 = v mod 13"
    using c(3) pos_mod_bound [of 13 c] pos_mod_sign [of 13 c]
    by (auto simp: card_value_def split: if_splits)
  have "c = c mod 13 \<or> c = c mod 13 + 13 \<or> c = c mod 13 + 26 \<or> c = c mod 13 + 39"
    using c(1,2) by presburger
  then show "c \<in> {v mod 13, v mod 13 + 13, v mod 13 + 26, v mod 13 + 39}"
    unfolding m by blast
qed

lemma count_value_le_4:
  assumes "distinct cards" and "set cards \<subseteq> {0..51}"
  shows "count_list (map card_value cards) v \<le> 4"
proof -
  have "count_list (map card_value cards) v = length (filter (\<lambda>c. card_value c = v) cards)"
    by (induction cards) simp_all
  also have "\<dots> = card (set (filter (\<lambda>c. card_value c = v) cards))"
  proof -
    have "distinct (filter (\<lambda>c. card_value c = v) cards)" using assms(1) by simp
    then show ?thesis by (rule distinct_card [symmetric])
  qed
  also have "\<dots> \<le> card {v mod 13, v mod 13 + 13, v mod 13 + 26, v mod 13 + 39}"
  proof (rule card_mono)
    show "set (filter (\<lambda>c. card_value c = v) cards)
        \<subseteq> {v mod 13, v mod 13 + 13, v mod 13 + 26, v mod 13 + 39}"
    proof
      fix c assume "c \<in> set (filter (\<lambda>c. card_value c = v) cards)"
      then have "c \<in> {c. 0 \<le> c \<and> c \<le> 51 \<and> card_value c = v}"
        using assms(2) by auto
      then show "c \<in> {v mod 13, v mod 13 + 13, v mod 13 + 26, v mod 13 + 39}"
        using cards_of_value [of v] by blast
    qed
  qed simp
  also have "\<dots> \<le> 4"
    by (simp add: card_insert_if)
  finally show ?thesis .
qed

lemma count_single_value:
  assumes "set xs = {a}"
  shows "count_list xs a = length xs"
proof -
  have "sum (count_list xs) {a} = length xs"
    by (rule sum_count_set) (simp_all add: assms)
  then show ?thesis by simp
qed

lemma well_formed_no_error:
  assumes "distinct cards" and "set cards \<subseteq> {0..51}"
    and "5 \<le> length cards" and "length cards \<le> 7"
  shows "\<not> (\<exists>e. assess_hand cards = Inl e)"
    and "cards \<noteq> []" and "card (card_value ` set cards) \<noteq> 1"
proof -
  let ?vals = "map card_value cards"
  show ne: "cards \<noteq> []" using assms(3) by auto
  show n1: "card (card_value ` set cards) \<noteq> 1"
  proof
    assume "card (card_value ` set cards) = 1"
    then obtain a where "card_value ` set cards = {a}" by (auto simp: card_1_singleton_iff)
    then have "count_list ?vals a = length ?vals"
      by (intro count_single_value) simp
    then show False using count_value_le_4 [OF assms(1,2), of a] assms(3) by simp
  qed
  have "\<not> (\<exists>a b. a \<noteq> b \<and> card_value ` set cards = {a, b} \<and>
        count_list ?vals a = count_list ?vals b \<and>
        (count_list ?vals a = 2 \<or> count_list ?vals a = 4))"
  proof
    assume "\<exists>a b. a \<noteq> b \<and> card_value ` set cards = {a, b} \<and>
        count_list ?vals a = count_list ?vals b \<and>
        (count_list ?vals a = 2 \<or> count_list ?vals a = 4)"
    then obtain a b where ab: "a \<noteq> b" "card_value ` set cards = {a, b}"
      "count_list ?vals a = count_list ?vals b"
      "count_list ?vals a = 2 \<or> count_list ?vals a = 4" by blast
    have "count_list ?vals a + count_list ?vals b = length ?vals"
      using ab(1,2) by (intro count_two_values) simp_all
    with ab(3,4) assms(3,4) show False by auto
  qed
  with ne n1 show "\<not> (\<exists>e. assess_hand cards = Inl e)"
    unfolding assess_hand_error_iff by simp
qed

text \<open>A well-formed hand raises no error in the ranker, the sequence finder or the flush detector.\<close>

lemma well_formed_hand_returns:
  assumes "distinct cards" and "set cards \<subseteq> {0..51}"
    and "5 \<le> length cards" and "length cards \<le> 7"
  shows "(\<exists>record. assess_hand cards = Inr record) \<and>
         (\<exists>seq_values seq_cards. find_max_sequence cards = Inr [seq_values, seq_cards]) \<and>
         (\<exists>suit. flush_suite cards = Inr suit)"
proof -
  note wf = well_formed_no_error [OF assms]
  have "\<exists>record. assess_hand cards = Inr record"
    using wf(1) by (cases "assess_hand cards") auto
  moreover have "\<exists>seq_values seq_cards. find_max_sequence cards = Inr [seq_values, seq_cards]"
    using wf(2,3) by (simp add: find_max_sequence_eq)
  moreover have "\<exists>suit. flush_suite cards = Inr suit"
    using wf(2) by (rule flush_suite_Inr)
  ultimately show ?thesis by blast
qed

lemma assess_rest_not_ValueError: "assess_rest cards sv dup \<noteq> Inl ValueError"
proof -
  have two: "dup 2 \<noteq> []" if "length (dup 2) = 2" using that by auto
  have one: "dup 2 \<noteq> []" if "length (dup 2) = 1" using that by auto
  have five: "sv \<noteq> []" if "length sv = 5" using that by auto
  show ?thesis
    by (cases "select_side_cards cards (dup 2)")
      (auto simp: assess_rest_def Let_def item0_hd max_card_Inr min_card_Inr two one five)
qed

lemma assess_hand_ValueError_iff:
  "assess_hand cards = Inl ValueError \<longleftrightarrow> card (card_value ` set cards) = 1"
proof (cases "cards = [] \<or> card (card_value ` set cards) = 1")
  case True
  then show ?thesis using assess_hand_Nil assess_hand_single [of cards] by auto
next
  case False
  then have ne: "cards \<noteq> []" and n1: "card (card_value ` set cards) \<noteq> 1" by auto
  note body = assess_hand_body [OF ne n1]
  have "assess_hand cards \<noteq> Inl ValueError"
    unfolding body
    using assess_rest_not_ValueError
    by (cases "select_side_cards cards (group_duplicates cards 4)") auto
  then show ?thesis using n1 by simp
qed

subsection \<open>Straights and the wheel\<close>

lemma seq_keys_range: "seq_keys cards \<subseteq> {0..13}"
proof -
  have "0 \<le> card_value c \<and> card_value c \<le> 13" for c
    using card_value_range [of c] by linarith
  then show ?thesis by (auto simp: seq_keys_def)
qed

lemma representative_mem:
  assumes "v \<in> seq_keys cards"
  shows "representative cards v \<in> set cards"
proof -
  let ?w = "if v = 0 then 13 else v"
  have "?w \<in> card_value ` set cards"
    using assms card_value_nonzero by (auto simp: seq_keys_def split: if_splits)
  then have "filter (\<lambda>c. card_value c = ?w) cards \<noteq> []"
    by (auto simp: filter_empty_conv)
  then have "last (filter (\<lambda>c. card_value c = ?w) cards) \<in> set (filter (\<lambda>c. card_value c = ?w) cards)"
    by (rule last_in_set)
  then show ?thesis by (simp add: representative_def)
qed

lemma count_list_all_same: "\<forall>x\<in>set xs. x = s \<Longrightarrow> count_list xs s = length xs"
  by (induction xs) simp_all

lemma flush_suite_all_same:
  assumes "length hand = 5" and "\<forall>c\<in>set hand. c div 13 = s"
  shows "flush_suite hand = Inr (Some s)"
proof -
  have ne: "hand \<noteq> []" using assms(1) by auto
  from flush_suite_top [OF ne] obtain s0 where
    s0: "s0 \<in> (\<lambda>c. c div 13) ` set hand"
      "flush_suite hand =
         Inr (if count_list (map (\<lambda>c. c div 13) hand) s0 = 5 then Some s0 else None)"
    by blast
  from s0(1) assms(2) have "s0 = s" by auto
  moreover have "count_list (map (\<lambda>c. c div 13) hand) s = length (map (\<lambda>c. c div 13) hand)"
    by (rule count_list_all_same) (use assms(2) in auto)
  ultimately show ?thesis using s0(2) assms(1) by simp
qed

lemma run_of_five:
  assumes "successively (\<lambda>a b. b = a + 1) xs" and "length xs = 5"
  shows "xs = [last xs - 4, last xs - 3, last xs - 2, last xs - 1, last xs :: int]"
proof -
  from assms(2) obtain x1 x2 x3 x4 x5 where xs: "xs = [x1, x2, x3, x4, x5]"
    by (auto simp: numeral_eq_Suc length_Suc_conv)
  show ?thesis using assms(1) unfolding xs by simp
qed

text \<open>A suited hand of five cards whose keys give a run of five is a straight flush.\<close>

lemma suited_run_is_straight_flush:
  assumes "length cards = 5" and "\<forall>c\<in>set cards. c div 13 = s"
    and "card (card_value ` set cards) \<noteq> 1"
    and "length (longest_run (sorted_list_of_set (seq_keys cards))) = 5"
  shows "assess_hand cards =
           Inr (STRAIGHT_FLUSH, [last (longest_run (sorted_list_of_set (seq_keys cards)))])"
proof -
  let ?sv = "longest_run (sorted_list_of_set (seq_keys cards))"
  have ne: "cards \<noteq> []" using assms(1) by auto
  have "set ?sv \<subseteq> set (sorted_list_of_set (seq_keys cards))"
    using seq_keys_nonempty [OF ne] by (rule longest_run_props(3))
  then have "set ?sv \<subseteq> seq_keys cards" by simp
  then have "\<forall>c\<in>set (map (representative cards) ?sv). c div 13 = s"
    using representative_mem [of _ cards] assms(2) by auto
  moreover have "length (map (representative cards) ?sv) = 5" using assms(4) by simp
  ultimately have "flush_suite (map (representative cards) ?sv) = Inr (Some s)"
    by (intro flush_suite_all_same) 
  then show ?thesis
    unfolding assess_hand_body [OF ne assms(3)] using assms(4) by simp
qed

lemma straight_descriptor:
  assumes "assess_hand cards = Inr (c, vs)" and "c = STRAIGHT \<or> c = STRAIGHT_FLUSH"
  shows "cards \<noteq> []"
    and "length (longest_run (sorted_list_of_set (seq_keys cards))) = 5"
    and "vs = [last (longest_run (sorted_list_of_set (seq_keys cards)))]"
proof -
  let ?sv = "longest_run (sorted_list_of_set (seq_keys cards))"
  show ne: "cards \<noteq> []" using assms(1) assess_hand_Nil by auto
  have n1: "card (card_value ` set cards) \<noteq> 1"
    using assms(1) assess_hand_single [of cards] by auto
  note body = assess_hand_body [OF ne n1]
  have two: "group_duplicates cards 2 \<noteq> []" if "length (group_duplicates cards 2) = 2"
    using that by auto
  have one: "group_duplicates cards 2 \<noteq> []" if "length (group_duplicates cards 2) = Suc 0"
    using that by auto
  have five: "?sv \<noteq> []" if "length ?sv = 5" using that by auto
  have rest: "length ?sv = 5 \<and> vs = [last ?sv]"
    if "assess_rest cards ?sv (group_duplicates cards) = Inr (c, vs)"
    using that assms(2)
    by (cases "select_side_cards cards (group_duplicates cards 2)")
      (auto simp: assess_rest_def Let_def item0_hd max_card_Inr min_card_Inr two one five
            split: if_splits)
  have "length ?sv = 5 \<and> vs = [last ?sv]"
    using assms rest five unfolding body
    by (cases "select_side_cards cards (group_duplicates cards 4)")
      (auto split: if_splits)
  then show "length ?sv = 5" and "vs = [last ?sv]" by simp_all
qed

lemma straight_high_value:
  assumes "assess_hand cards = Inr (c, vs)" and "c = STRAIGHT \<or> c = STRAIGHT_FLUSH"
  shows "\<exists>h. vs = [h] \<and> 4 \<le> h \<and> h \<le> 13 \<and> {h - 4..h} \<subseteq> seq_keys cards"
proof -
  let ?sv = "longest_run (sorted_list_of_set (seq_keys cards))"
  note sd = straight_descriptor [OF assms]
  have su: "successively (\<lambda>a b. b = a + 1) ?sv"
    and sub: "set ?sv \<subseteq> set (sorted_list_of_set (seq_keys cards))"
    using seq_keys_nonempty [OF sd(1)] by (rule longest_run_props(2), rule longest_run_props(3))
  define h where "h = last ?sv"
  have sv: "?sv = [h - 4, h - 3, h - 2, h - 1, h]"
    unfolding h_def using su sd(2) by (rule run_of_five)
  have keys: "set ?sv \<subseteq> seq_keys cards" using sub by simp
  then have "h - 4 \<in> seq_keys cards" "h \<in> seq_keys cards"
    unfolding sv by simp_all
  then have "0 \<le> h - 4" "h \<le> 13" using seq_keys_range [of cards] by auto
  moreover have "{h - 4..h} = set ?sv" unfolding sv by auto
  ultimately show ?thesis using sd(3) keys by (auto simp: h_def)
qed

lemma non_straight_below_wheel:
  "c \<noteq> STRAIGHT_FLUSH \<Longrightarrow> descriptor_lt (c, vs) (STRAIGHT_FLUSH, [4])"
  by (cases c) (simp_all add: descriptor_lt_def)

lemma wheel_hand:
  assumes "s \<in> {0, 1, 2, 3}" and "distinct cards"
    and "set cards = {13 * s, 13 * s + 1, 13 * s + 2, 13 * s + 3, 13 * s + 4}"
  shows "assess_hand cards = Inr (STRAIGHT_FLUSH, [4])"
proof -
  have len: "length cards = 5"
    using distinct_card [OF assms(2)] assms(3) by simp
  have suit: "\<forall>c\<in>set cards. c div 13 = s" using assms(3) by auto
  have V: "card_value ` set cards = {13, 1, 2, 3, 4}"
    using assms(1) unfolding assms(3) by (auto simp: card_value_def)
  then have keys: "seq_keys cards = {0, 1, 2, 3, 4, 13}" by (auto simp: seq_keys_def)
  have lr: "longest_run (sorted_list_of_set (seq_keys cards)) = [0, 1, 2, 3, 4]"
    unfolding keys by (simp add: longest_run_def top_run_def py_sorted_def)
  have "card (card_value ` set cards) \<noteq> 1" unfolding V by simp
  from suited_run_is_straight_flush [OF len suit this] show ?thesis by (simp add: lr)
qed

lemma six_high_hand:
  assumes "s \<in> {0, 1, 2, 3}" and "distinct cards"
    and "set cards = {13 * s + 1, 13 * s + 2, 13 * s + 3, 13 * s + 4, 13 * s + 5}"
  shows "assess_hand cards = Inr (STRAIGHT_FLUSH, [5])"
proof -
  have len: "length cards = 5"
    using distinct_card [OF assms(2)] assms(3) by simp
  have suit: "\<forall>c\<in>set cards. c div 13 = s" using assms(3) by auto
  have V: "card_value ` set cards = {1, 2, 3, 4, 5}"
    using assms(1) unfolding assms(3) by (auto simp: card_value_def)
  then have keys: "seq_keys cards = {1, 2, 3, 4, 5}" by (auto simp: seq_keys_def)
  have lr: "longest_run (sorted_list_of_set (seq_keys cards)) = [1, 2, 3, 4, 5]"
    unfolding keys by (simp add: longest_run_def top_run_def py_sorted_def)
  have "card (card_value ` set cards) \<noteq> 1" unfolding V by simp
  from suited_run_is_straight_flush [OF len suit this] show ?thesis by (simp add: lr)
qed

lemma seq_keys_mem:
  "v \<in> seq_keys cards \<longleftrightarrow> (if v = 0 then 13 \<in> card_value ` set cards else v \<in> card_value ` set cards)"
proof -
  have "0 \<notin> card_value ` set cards" using card_value_nonzero by force
  then show ?thesis by (auto simp: seq_keys_def)
qed

subsection \<open>Five-card hands by count pattern\<close>

lemma five_cards_wf:
  assumes "five_cards cards"
  shows "length cards = 5" and "distinct cards" and "set cards \<subseteq> {0..51}"
    and "cards \<noteq> []" and "card (card_value ` set cards) \<noteq> 1"
proof -
  show l: "length cards = 5" and d: "distinct cards" and r: "set cards \<subseteq> {0..51}"
    using assms by (simp_all add: five_cards_def)
  from well_formed_no_error(2,3) [OF d r] l
  show "cards \<noteq> []" and "card (card_value ` set cards) \<noteq> 1" by simp_all
qed

lemma count_pos: "v \<in> set xs \<Longrightarrow> 1 \<le> count_list xs v"
  using count_list_0_iff [of xs v] by (cases "count_list xs v") auto

lemma values_in_range: "card_value ` set cards \<subseteq> {1..13}"
  using card_value_range by auto

lemma five_sum:
  assumes "five_cards cards"
  shows "sum (count_list (map card_value cards)) (card_value ` set cards) = 5"
proof -
  have "sum (count_list (map card_value cards)) (set (map card_value cards))
      = length (map card_value cards)"
    by (rule sum_count_set) simp_all
  then show ?thesis using five_cards_wf(1) [OF assms] by simp
qed

lemma five_count_three:
  assumes "five_cards cards" and "a \<noteq> b" and "a \<noteq> c" and "b \<noteq> c"
  shows "count_list (map card_value cards) a + count_list (map card_value cards) b
           + count_list (map card_value cards) c \<le> 5"
  using count_sum_le [of "{a, b, c}" "map card_value cards"] assms
    five_cards_wf(1) [OF assms(1)] by simp

lemma five_count_two:
  assumes "five_cards cards" and "a \<noteq> b"
  shows "count_list (map card_value cards) a + count_list (map card_value cards) b \<le> 5"
  using count_two_le [of a b "map card_value cards"] assms five_cards_wf(1) [OF assms(1)]
  by simp

text \<open>Within one suit the rank value determines the card.\<close>

lemma card_of_suit_value: "c = 13 * (c div 13) + (card_value c) mod 13"
proof -
  have "card_value c mod 13 = c mod 13" by (simp add: card_value_def)
  then show ?thesis by simp
qed

lemma card_value_inj_on_suit:
  assumes "\<forall>c\<in>A. c div 13 = s"
  shows "inj_on card_value A"
proof (rule inj_onI)
  fix x y assume "x \<in> A" "y \<in> A" "card_value x = card_value y"
  then show "x = y"
    using card_of_suit_value [of x] card_of_suit_value [of y] assms by simp
qed

lemma flush_suite_Some_suit:
  assumes "flush_suite cards \<noteq> Inr None" and "length cards = 5"
  shows "\<exists>s. (\<forall>c\<in>set cards. c div 13 = s) \<and> flush_suite cards = Inr (Some s)"
proof -
  have ne: "cards \<noteq> []" using assms(2) by auto
  let ?suits = "map (\<lambda>c. c div 13) cards"
  from flush_suite_top [OF ne] obtain s where
    s: "flush_suite cards = Inr (if count_list ?suits s = 5 then Some s else None)"
    by blast
  with assms(1) have c5: "count_list ?suits s = 5" by (simp split: if_splits)
  have "t = s" if "t \<in> set ?suits" for t
  proof (rule ccontr)
    assume "t \<noteq> s"
    then have "count_list ?suits t + count_list ?suits s \<le> length ?suits"
      by (rule count_two_le)
    then have "count_list ?suits t = 0" using c5 assms(2) by simp
    then show False using that by (simp add: count_list_0_iff)
  qed
  then have "\<forall>c\<in>set cards. c div 13 = s" by auto
  with s c5 show ?thesis by auto
qed

lemma flush_distinct_values:
  assumes "five_cards cards" and "flush_suite cards \<noteq> Inr None"
  shows "card (card_value ` set cards) = 5"
proof -
  note wf = five_cards_wf [OF assms(1)]
  from flush_suite_Some_suit [OF assms(2) wf(1)] obtain s where
    "\<forall>c\<in>set cards. c div 13 = s" by blast
  then have "inj_on card_value (set cards)" by (rule card_value_inj_on_suit)
  then have "card (card_value ` set cards) = card (set cards)" by (rule card_image)
  then show ?thesis using wf(1,2) by (simp add: distinct_card)
qed

lemma distinct_values_counts:
  "card (card_value ` set cards) = length cards \<longleftrightarrow> distinct (map card_value cards)"
  by (metis card_distinct distinct_card length_map set_map)

lemma run_of_five_values:
  assumes "length (longest_run (sorted_list_of_set (seq_keys cards))) = 5" and "cards \<noteq> []"
  shows "\<exists>h. 4 \<le> h \<and> h \<le> 13 \<and> straight_values h \<subseteq> card_value ` set cards \<and>
           longest_run (sorted_list_of_set (seq_keys cards)) = [h - 4, h - 3, h - 2, h - 1, h]"
proof -
  let ?sv = "longest_run (sorted_list_of_set (seq_keys cards))"
  have su: "successively (\<lambda>a b. b = a + 1) ?sv"
    and sub: "set ?sv \<subseteq> set (sorted_list_of_set (seq_keys cards))"
    using seq_keys_nonempty [OF assms(2)] by (rule longest_run_props(2), rule longest_run_props(3))
  define h where "h = last ?sv"
  have sv: "?sv = [h - 4, h - 3, h - 2, h - 1, h]"
    unfolding h_def using su assms(1) by (rule run_of_five)
  have keys: "set ?sv \<subseteq> seq_keys cards" using sub by simp
  then have k: "h - 4 \<in> seq_keys cards" "h - 3 \<in> seq_keys cards" "h - 2 \<in> seq_keys cards"
    "h - 1 \<in> seq_keys cards" "h \<in> seq_keys cards"
    unfolding sv by simp_all
  then have r: "0 \<le> h - 4" "h \<le> 13" using seq_keys_range [of cards] by auto
  have "straight_values h \<subseteq> card_value ` set cards"
  proof (cases "h = 4")
    case True
    then show ?thesis using k by (simp add: straight_values_def seq_keys_mem)
  next
    case False
    have "h - 4 \<noteq> 0" "h - 3 \<noteq> 0" "h - 2 \<noteq> 0" "h - 1 \<noteq> 0" "h \<noteq> 0"
      using r False by simp_all
    then show ?thesis using k False by (simp add: straight_values_def seq_keys_mem)
  qed
  with r sv show ?thesis by auto
qed

lemma card_straight_values: "4 \<le> h \<Longrightarrow> card (straight_values h) = 5"
  by (simp add: straight_values_def)

lemma run_needs_five_values:
  assumes "length (longest_run (sorted_list_of_set (seq_keys cards))) = 5" and "cards \<noteq> []"
  shows "5 \<le> card (card_value ` set cards)"
proof -
  from run_of_five_values [OF assms] obtain h where
    h: "4 \<le> h" "straight_values h \<subseteq> card_value ` set cards" by blast
  have "card (straight_values h) \<le> card (card_value ` set cards)"
    using h(2) by (intro card_mono) simp_all
  then show ?thesis using card_straight_values [OF h(1)] by simp
qed

lemma five_top:
  assumes "five_cards cards"
  obtains a b where "a \<noteq> b"
    and "a \<in> card_value ` set cards" and "b \<in> card_value ` set cards"
    and "\<And>m. group_duplicates cards m =
           (if count_list (map card_value cards) a = m then [a] else []) @
           (if count_list (map card_value cards) b = m then [b] else [])"
    and "count_list (map card_value cards) b \<le> count_list (map card_value cards) a"
    and "\<And>v. v \<noteq> a \<Longrightarrow> v \<noteq> b \<Longrightarrow>
           count_list (map card_value cards) v \<le> count_list (map card_value cards) b"
    and "\<And>v. count_list (map card_value cards) v \<le> count_list (map card_value cards) a"
proof -
  let ?vals = "map card_value cards"
  let ?cnt = "count_list ?vals"
  let ?V = "card_value ` set cards"
  note wf = five_cards_wf [OF assms]
  have "card ?V \<noteq> 0" using wf(4) by simp
  with wf(5) have c2: "2 \<le> card ?V" by linarith
  from top_two [OF c2] obtain a b where t: "a \<noteq> b" "a \<in> ?V" "b \<in> ?V"
    "most_common 2 (Counter ?vals) = [(a, ?cnt a), (b, ?cnt b)]"
    "?cnt b \<le> ?cnt a"
    "\<And>v. v \<in> ?V \<Longrightarrow> v \<noteq> a \<Longrightarrow> v \<noteq> b \<Longrightarrow> ?cnt v \<le> ?cnt b"
    by metis
  have dup: "group_duplicates cards m =
      (if ?cnt a = m then [a] else []) @ (if ?cnt b = m then [b] else [])" for m
    using t(4) by (rule group_duplicates_top_two)
  have rest: "?cnt v \<le> ?cnt b" if "v \<noteq> a" "v \<noteq> b" for v
  proof (cases "v \<in> ?V")
    case True
    then show ?thesis using t(6) that by blast
  next
    case False
    then have "?cnt v = 0" by (simp add: count_list_0_iff)
    then show ?thesis by simp
  qed
  have top: "?cnt v \<le> ?cnt a" for v
    using rest [of v] t(5) by (cases "v = a"; cases "v = b") auto
  show ?thesis using that [of a b] t(1-3,5) dup rest top by blast
qed

lemma side_cards_of_values:
  assumes "set ex \<subseteq> card_value ` set cards"
  shows "select_side_cards cards ex = rev (sorted_list_of_set (card_value ` set cards - set ex))"
proof -
  have "card_value v = v" if "v \<in> set ex" for v
    using that assms card_value_idem by auto
  then have "card_value ` set ex = set ex" by (simp add: image_def)
  then show ?thesis by (simp add: select_side_cards_def)
qed

text \<open>With fewer than five rank values among five cards there is no flush and no straight.\<close>

lemma five_cards_grouped:
  assumes "five_cards cards" and "card (card_value ` set cards) \<le> 4"
  shows "assess_hand cards =
     (if group_duplicates cards 4 \<noteq> [] then
        py_bind (item0 (select_side_cards cards (group_duplicates cards 4)))
          (\<lambda>k. Inr (FOUR, [hd (group_duplicates cards 4), k]))
      else if group_duplicates cards 3 \<noteq> [] \<and> group_duplicates cards 2 \<noteq> []
        then Inr (FULL_HOUSE, [hd (group_duplicates cards 3), hd (group_duplicates cards 2)])
      else assess_rest cards (longest_run (sorted_list_of_set (seq_keys cards)))
             (group_duplicates cards))"
    and "length (longest_run (sorted_list_of_set (seq_keys cards))) \<noteq> 5"
proof -
  note wf = five_cards_wf [OF assms(1)]
  show len: "length (longest_run (sorted_list_of_set (seq_keys cards))) \<noteq> 5"
    using run_needs_five_values [OF _ wf(4)] assms(2) by auto
  have fl: "flush_suite cards = Inr None"
    using flush_distinct_values [OF assms(1)] assms(2) by auto
  show "assess_hand cards =
     (if group_duplicates cards 4 \<noteq> [] then
        py_bind (item0 (select_side_cards cards (group_duplicates cards 4)))
          (\<lambda>k. Inr (FOUR, [hd (group_duplicates cards 4), k]))
      else if group_duplicates cards 3 \<noteq> [] \<and> group_duplicates cards 2 \<noteq> []
        then Inr (FULL_HOUSE, [hd (group_duplicates cards 3), hd (group_duplicates cards 2)])
      else assess_rest cards (longest_run (sorted_list_of_set (seq_keys cards)))
             (group_duplicates cards))"
    unfolding assess_hand_body [OF wf(4,5)] using len fl by simp
qed

lemma card_by_unit_counts:
  assumes "finite A" and "\<And>v. v \<in> A \<Longrightarrow> f v = (1::nat)"
  shows "card A = sum f A"
  using assms by (simp add: sum.cong [of A A f "\<lambda>_. 1"])

lemma five_rest_sum:
  assumes "five_cards cards" and "B \<subseteq> card_value ` set cards"
  shows "sum (count_list (map card_value cards)) (card_value ` set cards - B)
           + sum (count_list (map card_value cards)) B = 5"
proof -
  have "sum (count_list (map card_value cards)) (card_value ` set cards - B)
           + sum (count_list (map card_value cards)) B =
        sum (count_list (map card_value cards)) (card_value ` set cards)"
    using assms(2) by (intro sum.subset_diff [symmetric]) simp_all
  then show ?thesis using five_sum [OF assms(1)] by simp
qed

lemma count_mem: "0 < count_list xs v \<Longrightarrow> v \<in> set xs"
  using count_list_0_iff [of xs v] by auto

lemma five_four_of_a_kind:
  assumes "five_cards cards" and "count_list (map card_value cards) a = 4"
  shows "\<exists>k. k \<noteq> a \<and> card_value ` set cards = {a, k} \<and>
             assess_hand cards = Inr (FOUR, [a, k])"
proof -
  let ?cnt = "count_list (map card_value cards)"
  let ?V = "card_value ` set cards"
  from five_top [OF assms(1)] obtain a' b' where t: "a' \<noteq> b'" "a' \<in> ?V" "b' \<in> ?V"
    "\<And>m. group_duplicates cards m =
       (if ?cnt a' = m then [a'] else []) @ (if ?cnt b' = m then [b'] else [])"
    "\<And>v. ?cnt v \<le> ?cnt a'"
    by metis
  have a: "a' = a"
  proof (rule ccontr)
    assume "a' \<noteq> a"
    then have "?cnt a' + ?cnt a \<le> 5" using five_count_two [OF assms(1)] by blast
    then show False using t(5) [of a] assms(2) by simp
  qed
  have "?cnt a + ?cnt b' \<le> 5" using five_count_two [OF assms(1)] t(1) a by blast
  moreover have "1 \<le> ?cnt b'" using t(3) by (intro count_pos) simp
  ultimately have b1: "?cnt b' = 1" using assms(2) by simp
  have V: "?V = {a, b'}"
  proof -
    have "v = a \<or> v = b'" if "v \<in> ?V" for v
    proof (rule ccontr)
      assume "\<not> (v = a \<or> v = b')"
      then have "?cnt a + ?cnt b' + ?cnt v \<le> 5"
        using five_count_three [OF assms(1), of a b' v] t(1) a by auto
      moreover have "1 \<le> ?cnt v" using that by (intro count_pos) simp
      ultimately show False using assms(2) b1 by simp
    qed
    then show ?thesis using t(2,3) a by auto
  qed
  have d4: "group_duplicates cards 4 = [a]" using assms(2) b1 a by (simp add: t(4))
  have "?V - {a} = {b'}" using V t(1) a by auto
  then have side: "select_side_cards cards [a] = [b']"
    using side_cards_of_values [of "[a]" cards] t(2) a by simp
  have "card ?V \<le> 4" using V by (simp add: card_insert_if)
  from five_cards_grouped(1) [OF assms(1) this]
  have "assess_hand cards = Inr (FOUR, [a, b'])" by (simp add: d4 side)
  moreover have "b' \<noteq> a" using t(1) a by simp
  ultimately show ?thesis using V by (intro exI [of _ b']) simp
qed

lemma five_full_house:
  assumes "five_cards cards"
    and "count_list (map card_value cards) a = 3" and "count_list (map card_value cards) b = 2"
  shows "card_value ` set cards = {a, b} \<and> assess_hand cards = Inr (FULL_HOUSE, [a, b])"
proof -
  let ?cnt = "count_list (map card_value cards)"
  let ?V = "card_value ` set cards"
  have ab: "a \<noteq> b" using assms(2,3) by auto
  from five_top [OF assms(1)] obtain a' b' where t: "a' \<noteq> b'" "a' \<in> ?V" "b' \<in> ?V"
    "\<And>m. group_duplicates cards m =
       (if ?cnt a' = m then [a'] else []) @ (if ?cnt b' = m then [b'] else [])"
    "\<And>v. v \<noteq> a' \<Longrightarrow> v \<noteq> b' \<Longrightarrow> ?cnt v \<le> ?cnt b'"
    "\<And>v. ?cnt v \<le> ?cnt a'"
    by metis
  have a: "a' = a"
  proof (rule ccontr)
    assume "a' \<noteq> a"
    then have "?cnt a' + ?cnt a \<le> 5" using five_count_two [OF assms(1)] by blast
    then show False using t(6) [of a] assms(2) by simp
  qed
  have b: "b' = b"
  proof (rule ccontr)
    assume nb: "b' \<noteq> b"
    then have "?cnt b \<le> ?cnt b'" using t(5) [of b] a ab by auto
    moreover have "?cnt a + ?cnt b + ?cnt b' \<le> 5"
      using five_count_three [OF assms(1), of a b b'] ab nb t(1) a by auto
    ultimately show False using assms(2,3) by simp
  qed
  have V: "?V = {a, b}"
  proof -
    have "v = a \<or> v = b" if "v \<in> ?V" for v
    proof (rule ccontr)
      assume "\<not> (v = a \<or> v = b)"
      then have "?cnt a + ?cnt b + ?cnt v \<le> 5"
        using five_count_three [OF assms(1), of a b v] ab by auto
      moreover have "1 \<le> ?cnt v" using that by (intro count_pos) simp
      ultimately show False using assms(2,3) by simp
    qed
    then show ?thesis using t(2,3) a b by auto
  qed
  have d: "group_duplicates cards 4 = []" "group_duplicates cards 3 = [a]"
    "group_duplicates cards 2 = [b]"
    using assms(2,3) a b by (simp_all add: t(4))
  have "card ?V \<le> 4" using V by (simp add: card_insert_if)
  from five_cards_grouped(1) [OF assms(1) this]
  have "assess_hand cards = Inr (FULL_HOUSE, [a, b])" by (simp add: d)
  with V show ?thesis by simp
qed

lemma five_three_of_a_kind:
  assumes "five_cards cards"
    and "count_list (map card_value cards) a = 3"
    and "\<And>v. count_list (map card_value cards) v \<noteq> 2"
  shows "card (card_value ` set cards - {a}) = 2 \<and>
         assess_hand cards = Inr (THREE, a # rev (sorted_list_of_set (card_value ` set cards - {a})))"
proof -
  let ?cnt = "count_list (map card_value cards)"
  let ?V = "card_value ` set cards"
  from five_top [OF assms(1)] obtain a' b' where t: "a' \<noteq> b'" "a' \<in> ?V" "b' \<in> ?V"
    "\<And>m. group_duplicates cards m =
       (if ?cnt a' = m then [a'] else []) @ (if ?cnt b' = m then [b'] else [])"
    "\<And>v. ?cnt v \<le> ?cnt a'"
    by metis
  have a: "a' = a"
  proof (rule ccontr)
    assume "a' \<noteq> a"
    then have "?cnt a' + ?cnt a \<le> 5" using five_count_two [OF assms(1)] by blast
    then show False using t(5) [of a] assms(2) by simp
  qed
  have one: "?cnt v = 1" if "v \<in> ?V - {a}" for v
  proof -
    have "?cnt a + ?cnt v \<le> 5" using five_count_two [OF assms(1), of a v] that by auto
    moreover have "1 \<le> ?cnt v" using that by (intro count_pos) simp
    ultimately show ?thesis using assms(2) assms(3) [of v] by simp
  qed
  have "sum ?cnt (?V - {a}) + sum ?cnt {a} = 5"
    using t(2) a by (intro five_rest_sum [OF assms(1)]) simp
  then have "sum ?cnt (?V - {a}) = 2" using assms(2) by simp
  moreover have "card (?V - {a}) = sum ?cnt (?V - {a})"
    using one by (intro card_by_unit_counts) simp_all
  ultimately have c2: "card (?V - {a}) = 2" by simp
  have b1: "?cnt b' \<noteq> 3" "?cnt b' \<noteq> 2" "?cnt b' \<noteq> 4"
    using one [of b'] t(1,3) a by auto
  have d: "group_duplicates cards 4 = []" "group_duplicates cards 3 = [a]"
    "group_duplicates cards 2 = []"
    using assms(2) a b1 by (simp_all add: t(4))
  have side: "select_side_cards cards [a] = rev (sorted_list_of_set (?V - {a}))"
    using side_cards_of_values [of "[a]" cards] t(2) a by simp
  have len: "length (rev (sorted_list_of_set (?V - {a}))) = 2" using c2 by simp
  have "card ?V = 3"
    using c2 t(2) a by (simp add: card_Diff_singleton_if split: if_splits)
  then have "card ?V \<le> 4" by simp
  note g = five_cards_grouped [OF assms(1) this]
  have "assess_hand cards = Inr (THREE, a # rev (sorted_list_of_set (?V - {a})))"
    unfolding g(1) using g(2) len by (simp add: d assess_rest_def side)
  with c2 show ?thesis by simp
qed

lemma sort_cards_values:
  "sort_cards xs None False True = sort (map card_value xs)"
  by (simp add: sort_cards_def py_sorted_def)

lemma five_two_pair:
  assumes "five_cards cards" and "a \<noteq> b"
    and "count_list (map card_value cards) a = 2" and "count_list (map card_value cards) b = 2"
  shows "\<exists>k. k \<noteq> a \<and> k \<noteq> b \<and> card_value ` set cards = {a, b, k} \<and>
             assess_hand cards = Inr (TWO_PAIR, [max a b, min a b, k])"
proof -
  let ?cnt = "count_list (map card_value cards)"
  let ?V = "card_value ` set cards"
  have mem: "a \<in> ?V" "b \<in> ?V"
    using assms(3,4) count_mem [of "map card_value cards"] by auto
  from five_top [OF assms(1)] obtain a' b' where t: "a' \<noteq> b'" "a' \<in> ?V" "b' \<in> ?V"
    "\<And>m. group_duplicates cards m =
       (if ?cnt a' = m then [a'] else []) @ (if ?cnt b' = m then [b'] else [])"
    "\<And>v. v \<noteq> a' \<Longrightarrow> v \<noteq> b' \<Longrightarrow> ?cnt v \<le> ?cnt b'"
    "\<And>v. ?cnt v \<le> ?cnt a'"
    by metis
  have a': "a' = a \<or> a' = b"
  proof (rule ccontr)
    assume "\<not> (a' = a \<or> a' = b)"
    then have "?cnt a + ?cnt b + ?cnt a' \<le> 5"
      using five_count_three [OF assms(1), of a b a'] assms(2) by auto
    then show False using t(6) [of a] assms(3,4) by simp
  qed
  have b': "b' = a \<or> b' = b"
  proof (rule ccontr)
    assume nb: "\<not> (b' = a \<or> b' = b)"
    obtain v where v: "v = a \<or> v = b" "v \<noteq> a'" using assms(2) by metis
    then have "?cnt v \<le> ?cnt b'" using t(5) [of v] nb by auto
    moreover have "?cnt a + ?cnt b + ?cnt b' \<le> 5"
      using five_count_three [OF assms(1), of a b b'] assms(2) nb by auto
    ultimately show False using v(1) assms(3,4) by auto
  qed
  have tops: "(a' = a \<and> b' = b) \<or> (a' = b \<and> b' = a)" using a' b' t(1) by auto
  then have cnt: "?cnt a' = 2" "?cnt b' = 2" using assms(3,4) by auto
  have d: "group_duplicates cards 4 = []" "group_duplicates cards 3 = []"
    "group_duplicates cards 2 = [a', b']"
    by (simp_all add: t(4) cnt)
  have "sum ?cnt (?V - {a, b}) + sum ?cnt {a, b} = 5"
    using mem by (intro five_rest_sum [OF assms(1)]) simp
  then have s1: "sum ?cnt (?V - {a, b}) = 1" using assms(2-4) by simp
  have one: "?cnt v = 1" if "v \<in> ?V - {a, b}" for v
  proof -
    have "?cnt a + ?cnt b + ?cnt v \<le> 5"
      using five_count_three [OF assms(1), of a b v] assms(2) that by auto
    moreover have "1 \<le> ?cnt v" using that by (intro count_pos) simp
    ultimately show ?thesis using assms(3,4) by simp
  qed
  have "card (?V - {a, b}) = sum ?cnt (?V - {a, b})"
    using one by (intro card_by_unit_counts) simp_all
  then have "card (?V - {a, b}) = 1" using s1 by simp
  then obtain k where k: "?V - {a, b} = {k}" by (auto simp: card_1_singleton_iff)
  then have kab: "k \<noteq> a" "k \<noteq> b" "k \<in> ?V" by auto
  have V: "?V = {a, b, k}" using k mem by auto
  have "?V - set [a', b'] = {k}" using k tops by auto
  then have side: "select_side_cards cards [a', b'] = [k]"
    using side_cards_of_values [of "[a', b']" cards] t(2,3) by simp
  have va: "card_value a = a" "card_value b = b"
    using mem card_value_idem by auto
  have srt: "sort (map card_value [a', b']) = [min a b, max a b]"
    using tops va assms(2) by (auto simp: min_def max_def)
  have sc: "sort_cards [a', b'] None False True = [min a b, max a b]"
    unfolding sort_cards_values by (rule srt)
  have mx: "max_card [a', b'] None True = Inr (max a b)"
    and mn: "min_card [a', b'] True = Inr (min a b)"
    unfolding max_card_def min_card_def sc by simp_all
  have "card ?V \<le> 4" unfolding V by (simp add: card_insert_if)
  note g = five_cards_grouped [OF assms(1) this]
  have "assess_hand cards = Inr (TWO_PAIR, [max a b, min a b, k])"
    unfolding g(1) using g(2) by (simp add: d assess_rest_def side mx mn)
  with V kab show ?thesis by (intro exI [of _ k]) simp
qed

lemma five_pair:
  assumes "five_cards cards"
    and "count_list (map card_value cards) a = 2"
    and "\<And>v. v \<noteq> a \<Longrightarrow> count_list (map card_value cards) v \<le> 1"
  shows "card (card_value ` set cards - {a}) = 3 \<and>
         assess_hand cards = Inr (PAIR, a # rev (sorted_list_of_set (card_value ` set cards - {a})))"
proof -
  let ?cnt = "count_list (map card_value cards)"
  let ?V = "card_value ` set cards"
  from five_top [OF assms(1)] obtain a' b' where t: "a' \<noteq> b'" "a' \<in> ?V" "b' \<in> ?V"
    "\<And>m. group_duplicates cards m =
       (if ?cnt a' = m then [a'] else []) @ (if ?cnt b' = m then [b'] else [])"
    "\<And>v. ?cnt v \<le> ?cnt a'"
    by metis
  have a: "a' = a"
  proof (rule ccontr)
    assume "a' \<noteq> a"
    then have "?cnt a' \<le> 1" using assms(3) by blast
    then show False using t(5) [of a] assms(2) by simp
  qed
  have one: "?cnt v = 1" if "v \<in> ?V - {a}" for v
  proof -
    have "1 \<le> ?cnt v" using that by (intro count_pos) simp
    moreover have "?cnt v \<le> 1" using that assms(3) by auto
    ultimately show ?thesis by simp
  qed
  have "sum ?cnt (?V - {a}) + sum ?cnt {a} = 5"
    using t(2) a by (intro five_rest_sum [OF assms(1)]) simp
  then have "sum ?cnt (?V - {a}) = 3" using assms(2) by simp
  moreover have "card (?V - {a}) = sum ?cnt (?V - {a})"
    using one by (intro card_by_unit_counts) simp_all
  ultimately have c3: "card (?V - {a}) = 3" by simp
  have b1: "?cnt b' = 1" using one [of b'] t(1,3) a by auto
  have d: "group_duplicates cards 4 = []" "group_duplicates cards 3 = []"
    "group_duplicates cards 2 = [a]"
    using assms(2) a b1 by (simp_all add: t(4))
  have side: "select_side_cards cards [a] = rev (sorted_list_of_set (?V - {a}))"
    using side_cards_of_values [of "[a]" cards] t(2) a by simp
  have len: "length (rev (sorted_list_of_set (?V - {a}))) = 3" using c3 by simp
  have "card ?V = 4"
    using c3 t(2) a by (simp add: card_Diff_singleton_if split: if_splits)
  then have "card ?V \<le> 4" by simp
  note g = five_cards_grouped [OF assms(1) this]
  have "assess_hand cards = Inr (PAIR, a # rev (sorted_list_of_set (?V - {a})))"
    unfolding g(1) using g(2) len by (simp add: d assess_rest_def side)
  with c3 show ?thesis by simp
qed

lemma sort_distinct_eq: "distinct xs \<Longrightarrow> sort xs = sorted_list_of_set (set xs)"
  by (intro sorted_distinct_set_unique) simp_all

lemma sort_cards_desc_distinct:
  assumes "distinct (map card_value cards)"
  shows "sort_cards cards None True True = rev (sorted_list_of_set (card_value ` set cards))"
proof -
  have "sort (rev (map card_value cards)) = sorted_list_of_set (set (rev (map card_value cards)))"
    using assms by (intro sort_distinct_eq) simp
  then show ?thesis by (simp add: sort_cards_def py_sorted_def)
qed

lemma sort_cards_suit_all:
  assumes "\<forall>c\<in>set cards. c div 13 = s"
  shows "sort_cards cards (Some s) r t = sort_cards cards None r t"
proof -
  have "filter (\<lambda>c. c div 13 = s) cards = cards" using assms by (simp add: filter_id_conv)
  then show ?thesis by (simp add: sort_cards_def)
qed

lemma representative_unique:
  assumes "distinct (map card_value cards)" and "c \<in> set cards"
    and "(if k = 0 then 13 else k) = card_value c"
  shows "representative cards k = c"
proof -
  let ?f = "filter (\<lambda>x. card_value x = card_value c) cards"
  have "c \<in> set ?f" using assms(2) by simp
  then have "?f \<noteq> []" by (metis list.set(1) empty_iff)
  then have "last ?f \<in> set ?f" by (rule last_in_set)
  then have "last ?f \<in> set cards" "card_value (last ?f) = card_value c" by auto
  moreover have "inj_on card_value (set cards)" using assms(1) by (simp add: distinct_map)
  ultimately have "last ?f = c" using assms(2) by (auto dest: inj_onD)
  then show ?thesis by (simp add: representative_def assms(3))
qed

text \<open>Five cards of five rank values that form a straight: the sequence finder returns the five cards.\<close>

lemma straight_cards_cover:
  assumes "distinct (map card_value cards)" and "length cards = 5"
    and "length (longest_run (sorted_list_of_set (seq_keys cards))) = 5"
  shows "set cards \<subseteq> set (map (representative cards) (longest_run (sorted_list_of_set (seq_keys cards))))"
proof
  let ?sv = "longest_run (sorted_list_of_set (seq_keys cards))"
  let ?V = "card_value ` set cards"
  fix c assume c: "c \<in> set cards"
  have ne: "cards \<noteq> []" using assms(2) by auto
  from run_of_five_values [OF assms(3) ne] obtain h where
    h: "4 \<le> h" "straight_values h \<subseteq> ?V" "?sv = [h - 4, h - 3, h - 2, h - 1, h]" by blast
  have "card ?V = 5" using assms(1,2) distinct_values_counts [of cards] by simp
  then have "card (straight_values h) = card ?V" using card_straight_values [OF h(1)] by simp
  with h(2) have V: "straight_values h = ?V" by (intro card_subset_eq) simp_all
  then have v: "card_value c \<in> straight_values h" using c by auto
  have "\<exists>k\<in>set ?sv. (if k = 0 then 13 else k) = card_value c"
  proof (cases "h = 4")
    case True
    then show ?thesis using v unfolding h(3) by (auto simp: straight_values_def)
  next
    case False
    then have "h - 4 \<noteq> 0" "h - 3 \<noteq> 0" "h - 2 \<noteq> 0" "h - 1 \<noteq> 0" "h \<noteq> 0"
      using h(1) by simp_all
    then show ?thesis using v False unfolding h(3) by (auto simp: straight_values_def)
  qed
  then obtain k where k: "k \<in> set ?sv" "(if k = 0 then 13 else k) = card_value c" by blast
  have "representative cards k = c" using assms(1) c k(2) by (rule representative_unique)
  then show "c \<in> set (map (representative cards) ?sv)" using k(1) by force
qed

lemma five_no_pair:
  assumes "five_cards cards" and "\<And>v. count_list (map card_value cards) v \<le> 1"
  shows "card (card_value ` set cards) = 5"
    and "assess_hand cards =
      (if length (longest_run (sorted_list_of_set (seq_keys cards))) = 5
       then Inr (if \<exists>s. \<forall>c\<in>set cards. c div 13 = s then STRAIGHT_FLUSH else STRAIGHT,
                 [last (longest_run (sorted_list_of_set (seq_keys cards)))])
       else Inr (if \<exists>s. \<forall>c\<in>set cards. c div 13 = s then FLUSH else HIGH_CARD,
                 rev (sorted_list_of_set (card_value ` set cards))))"
proof -
  let ?cnt = "count_list (map card_value cards)"
  let ?V = "card_value ` set cards"
  let ?sv = "longest_run (sorted_list_of_set (seq_keys cards))"
  let ?sc = "map (representative cards) ?sv"
  let ?flush = "\<exists>s. \<forall>c\<in>set cards. c div 13 = s"
  note wf = five_cards_wf [OF assms(1)]
  have one: "?cnt v = 1" if "v \<in> ?V" for v
    using count_pos [of v "map card_value cards"] assms(2) [of v] that by simp
  have "card ?V = sum ?cnt ?V" using one by (intro card_by_unit_counts) simp_all
  then show c5: "card ?V = 5" using five_sum [OF assms(1)] by simp
  then have dv: "distinct (map card_value cards)"
    using distinct_values_counts [of cards] wf(1) by simp
  from five_top [OF assms(1)] obtain a' b' where t: "a' \<in> ?V" "b' \<in> ?V"
    "\<And>m. group_duplicates cards m =
       (if ?cnt a' = m then [a'] else []) @ (if ?cnt b' = m then [b'] else [])"
    by metis
  have d: "group_duplicates cards 4 = []" "group_duplicates cards 3 = []"
    "group_duplicates cards 2 = []"
    using one [OF t(1)] one [OF t(2)] by (simp_all add: t(3))
  have srt: "sort_cards cards None True True = rev (sorted_list_of_set ?V)"
    using dv by (rule sort_cards_desc_distinct)
  have tk: "take 5 (rev (sorted_list_of_set ?V)) = rev (sorted_list_of_set ?V)"
    using c5 by simp
  show "assess_hand cards =
      (if length ?sv = 5
       then Inr (if ?flush then STRAIGHT_FLUSH else STRAIGHT, [last ?sv])
       else Inr (if ?flush then FLUSH else HIGH_CARD, rev (sorted_list_of_set ?V)))"
  proof (cases ?flush)
    case True
    then obtain s where s: "\<forall>c\<in>set cards. c div 13 = s" by blast
    have fc: "flush_suite cards = Inr (Some s)"
      using wf(1) s by (rule flush_suite_all_same)
    have fsc: "flush_suite ?sc = Inr (Some s)" if "length ?sv = 5"
    proof (rule flush_suite_all_same)
      show "length ?sc = 5" using that by simp
      have "set ?sv \<subseteq> set (sorted_list_of_set (seq_keys cards))"
        using seq_keys_nonempty [OF wf(4)] by (rule longest_run_props(3))
      then have "set ?sv \<subseteq> seq_keys cards" by simp
      then show "\<forall>c\<in>set ?sc. c div 13 = s"
        using representative_mem [of _ cards] s by auto
    qed
    have fl: "sort_cards cards (Some s) True True = rev (sorted_list_of_set ?V)"
      using sort_cards_suit_all [OF s] srt by simp
    show ?thesis
      unfolding assess_hand_body [OF wf(4,5)]
      using True fsc by (simp add: d fc fl tk)
  next
    case False
    have fc: "flush_suite cards = Inr None"
    proof (rule ccontr)
      assume "flush_suite cards \<noteq> Inr None"
      from flush_suite_Some_suit [OF this wf(1)] False show False by blast
    qed
    have fsc: "flush_suite ?sc = Inr None" if l5: "length ?sv = 5"
    proof (rule ccontr)
      assume "flush_suite ?sc \<noteq> Inr None"
      moreover have "length ?sc = 5" using l5 by simp
      ultimately obtain s where "\<forall>c\<in>set ?sc. c div 13 = s"
        using flush_suite_Some_suit [of ?sc] by blast
      moreover have "set cards \<subseteq> set ?sc" using dv wf(1) l5 by (rule straight_cards_cover)
      ultimately have "\<forall>c\<in>set cards. c div 13 = s" by blast
      with False show False by blast
    qed
    have five: "?sv \<noteq> []" if "length ?sv = 5" using that by auto
    show ?thesis
      unfolding assess_hand_body [OF wf(4,5)]
      using fsc five by (simp add: d fc assess_rest_def srt tk False)
  qed
qed

lemma straight_values_run:
  assumes "4 \<le> h" and "h \<le> 13" and "card_value ` set cards = straight_values h"
  shows "longest_run (sorted_list_of_set (seq_keys cards)) = [h - 4, h - 3, h - 2, h - 1, h]"
proof -
  from assms(1,2) have "h = 4 \<or> h = 5 \<or> h = 6 \<or> h = 7 \<or> h = 8 \<or> h = 9 \<or> h = 10 \<or>
      h = 11 \<or> h = 12 \<or> h = 13" by presburger
  then show ?thesis
  proof (elim disjE)
    assume "h = 4"
    then show ?thesis
      by (simp add: seq_keys_def assms(3) straight_values_def longest_run_def top_run_def py_sorted_def)
  next
    assume "h = 5"
    then show ?thesis
      by (simp add: seq_keys_def assms(3) straight_values_def longest_run_def top_run_def py_sorted_def)
  next
    assume "h = 6"
    then show ?thesis
      by (simp add: seq_keys_def assms(3) straight_values_def longest_run_def top_run_def py_sorted_def)
  next
    assume "h = 7"
    then show ?thesis
      by (simp add: seq_keys_def assms(3) straight_values_def longest_run_def top_run_def py_sorted_def)
  next
    assume "h = 8"
    then show ?thesis
      by (simp add: seq_keys_def assms(3) straight_values_def longest_run_def top_run_def py_sorted_def)
  next
    assume "h = 9"
    then show ?thesis
      by (simp add: seq_keys_def assms(3) straight_values_def longest_run_def top_run_def py_sorted_def)
  next
    assume "h = 10"
    then show ?thesis
      by (simp add: seq_keys_def assms(3) straight_values_def longest_run_def top_run_def py_sorted_def)
  next
    assume "h = 11"
    then show ?thesis
      by (simp add: seq_keys_def assms(3) straight_values_def longest_run_def top_run_def py_sorted_def)
  next
    assume "h = 12"
    then show ?thesis
      by (simp add: seq_keys_def assms(3) straight_values_def longest_run_def top_run_def py_sorted_def)
  next
    assume "h = 13"
    then show ?thesis
      by (simp add: seq_keys_def assms(3) straight_values_def longest_run_def top_run_def py_sorted_def)
  qed
qed

lemma run_is_straight_values:
  assumes "length (longest_run (sorted_list_of_set (seq_keys cards))) = 5"
    and "card (card_value ` set cards) = 5"
  shows "\<exists>h. 4 \<le> h \<and> h \<le> 13 \<and> card_value ` set cards = straight_values h \<and>
           last (longest_run (sorted_list_of_set (seq_keys cards))) = h"
proof -
  have ne: "cards \<noteq> []" using assms(2) by auto
  from run_of_five_values [OF assms(1) ne] obtain h where
    h: "4 \<le> h" "h \<le> 13" "straight_values h \<subseteq> card_value ` set cards"
      "longest_run (sorted_list_of_set (seq_keys cards)) = [h - 4, h - 3, h - 2, h - 1, h]"
    by blast
  have "card (straight_values h) = card (card_value ` set cards)"
    using card_straight_values [OF h(1)] assms(2) by simp
  with h(3) have "straight_values h = card_value ` set cards"
    by (intro card_subset_eq) simp_all
  with h show ?thesis by (intro exI [of _ h]) simp
qed

lemma five_cards_patterns:
  assumes "five_cards cards"
  shows "(\<exists>a. count_list (map card_value cards) a = 4) \<or>
         (\<exists>a b. count_list (map card_value cards) a = 3 \<and> count_list (map card_value cards) b = 2) \<or>
         (\<exists>a. count_list (map card_value cards) a = 3 \<and>
              (\<forall>v. count_list (map card_value cards) v \<noteq> 2)) \<or>
         (\<exists>a b. a \<noteq> b \<and> count_list (map card_value cards) a = 2 \<and>
                count_list (map card_value cards) b = 2) \<or>
         (\<exists>a. count_list (map card_value cards) a = 2 \<and>
              (\<forall>v. v \<noteq> a \<longrightarrow> count_list (map card_value cards) v \<le> 1)) \<or>
         (\<forall>v. count_list (map card_value cards) v \<le> 1)"
proof -
  let ?cnt = "count_list (map card_value cards)"
  note wf = five_cards_wf [OF assms]
  from five_top [OF assms] obtain a b where t: "a \<noteq> b"
    "?cnt b \<le> ?cnt a"
    "\<And>v. v \<noteq> a \<Longrightarrow> v \<noteq> b \<Longrightarrow> ?cnt v \<le> ?cnt b"
    "\<And>v. ?cnt v \<le> ?cnt a"
    by metis
  have "?cnt a \<le> 4" using wf(2,3) by (rule count_value_le_4)
  then consider "?cnt a \<le> 1" | "?cnt a = 2" | "?cnt a = 3" | "?cnt a = 4" by linarith
  then show ?thesis
  proof cases
    case 1
    then have "\<forall>v. ?cnt v \<le> 1" using t(4) le_trans by blast
    then show ?thesis by blast
  next
    case 2
    show ?thesis
    proof (cases "?cnt b = 2")
      case True
      with 2 t(1) show ?thesis by blast
    next
      case False
      then have "?cnt b \<le> 1" using t(2) 2 by simp
      then have "\<forall>v. v \<noteq> a \<longrightarrow> ?cnt v \<le> 1"
        using t(3) le_trans by (metis)
      with 2 show ?thesis by blast
    qed
  next
    case 3
    then show ?thesis by (cases "\<exists>v. ?cnt v = 2") blast+
  next
    case 4
    then show ?thesis by blast
  qed
qed

lemma values_are_ranks: "card_value ` set cards \<subseteq> rank_values"
  using values_in_range by (simp add: rank_values_def)

lemma straight_sets_iff:
  "K \<in> straight_sets \<longleftrightarrow> (\<exists>h. 4 \<le> h \<and> h \<le> 13 \<and> K = straight_values h)"
  by (auto simp: straight_sets_def)

lemma five_cards_descriptor:
  assumes "five_cards cards"
  shows "\<exists>d\<in>five_card_descriptors. assess_hand cards = Inr d"
proof -
  let ?cnt = "count_list (map card_value cards)"
  let ?V = "card_value ` set cards"
  let ?sv = "longest_run (sorted_list_of_set (seq_keys cards))"
  note wf = five_cards_wf [OF assms]
  note R = values_are_ranks [of cards]
  have inV: "v \<in> ?V" if "0 < ?cnt v" for v
    using count_mem [OF that] by simp
  from five_cards_patterns [OF assms]
  consider (four) a where "?cnt a = 4"
    | (full) a b where "?cnt a = 3" "?cnt b = 2"
    | (three) a where "?cnt a = 3" "\<forall>v. ?cnt v \<noteq> 2"
    | (two_pair) a b where "a \<noteq> b" "?cnt a = 2" "?cnt b = 2"
    | (pair) a where "?cnt a = 2" "\<forall>v. v \<noteq> a \<longrightarrow> ?cnt v \<le> 1"
    | (none) "\<forall>v. ?cnt v \<le> 1"
    by blast
  then show ?thesis
  proof cases
    case four
    from five_four_of_a_kind [OF assms four] obtain k where
      k: "k \<noteq> a" "?V = {a, k}" "assess_hand cards = Inr (FOUR, [a, k])" by blast
    have "a \<in> rank_values" "k \<in> rank_values" using R k(2) by auto
    then have "(FOUR, [a, k]) \<in> two_value_descriptors FOUR"
      using k(1) by (force simp: two_value_descriptors_def)
    then show ?thesis using k(3) by (auto simp: five_card_descriptors_def)
  next
    case full
    from five_full_house [OF assms full] have
      r: "?V = {a, b}" "assess_hand cards = Inr (FULL_HOUSE, [a, b])" by simp_all
    have "a \<in> rank_values" "b \<in> rank_values" using R r(1) by auto
    moreover have "a \<noteq> b" using full by auto
    ultimately have "(FULL_HOUSE, [a, b]) \<in> two_value_descriptors FULL_HOUSE"
      by (force simp: two_value_descriptors_def)
    then show ?thesis using r(2) by (auto simp: five_card_descriptors_def)
  next
    case three
    from five_three_of_a_kind [OF assms three(1)] three(2) have
      r: "card (?V - {a}) = 2"
        "assess_hand cards = Inr (THREE, a # rev (sorted_list_of_set (?V - {a})))" by simp_all
    have "a \<in> rank_values" using R inV [of a] three(1) by auto
    moreover have "?V - {a} \<subseteq> rank_values - {a}" using R by auto
    ultimately have "(THREE, a # rev (sorted_list_of_set (?V - {a}))) \<in> kicker_descriptors THREE 2"
      using r(1) by (force simp: kicker_descriptors_def)
    then show ?thesis using r(2) by (auto simp: five_card_descriptors_def)
  next
    case two_pair
    from five_two_pair [OF assms two_pair] obtain k where
      k: "k \<noteq> a" "k \<noteq> b" "?V = {a, b, k}"
        "assess_hand cards = Inr (TWO_PAIR, [max a b, min a b, k])" by blast
    have "rev (sorted_list_of_set {a, b}) = [max a b, min a b]"
      using two_pair(1) by (auto simp: max_def min_def)
    then have d: "(TWO_PAIR, [max a b, min a b, k])
        = (\<lambda>(P, k). (TWO_PAIR, rev (sorted_list_of_set P) @ [k])) ({a, b}, k)" by simp
    have "{a, b} \<subseteq> rank_values" "card {a, b} = 2" "k \<in> rank_values - {a, b}"
      using R k(1-3) two_pair(1) by auto
    then have "({a, b}, k) \<in> (SIGMA P:{P. P \<subseteq> rank_values \<and> card P = 2}. rank_values - P)"
      by blast
    then have "(TWO_PAIR, [max a b, min a b, k]) \<in> two_pair_descriptors"
      unfolding two_pair_descriptors_def d by (rule imageI)
    then show ?thesis using k(4) by (auto simp: five_card_descriptors_def)
  next
    case pair
    from five_pair [OF assms pair(1)] pair(2) have
      r: "card (?V - {a}) = 3"
        "assess_hand cards = Inr (PAIR, a # rev (sorted_list_of_set (?V - {a})))" by simp_all
    have "a \<in> rank_values" using R inV [of a] pair(1) by auto
    moreover have "?V - {a} \<subseteq> rank_values - {a}" using R by auto
    ultimately have "(PAIR, a # rev (sorted_list_of_set (?V - {a}))) \<in> kicker_descriptors PAIR 3"
      using r(1) by (force simp: kicker_descriptors_def)
    then show ?thesis using r(2) by (auto simp: five_card_descriptors_def)
  next
    case none
    then have le1: "\<And>v. ?cnt v \<le> 1" by blast
    note np = five_no_pair [OF assms le1]
    show ?thesis
    proof (cases "length ?sv = 5")
      case True
      from run_is_straight_values [OF True np(1)] obtain h where
        h: "4 \<le> h" "h \<le> 13" "last ?sv = h" by blast
      then have "(c, [last ?sv]) \<in> top_descriptors c" for c
        by (auto simp: top_descriptors_def)
      then show ?thesis
        unfolding np(2) using True by (auto simp: five_card_descriptors_def)
    next
      case False
      have "?V \<notin> straight_sets"
      proof
        assume "?V \<in> straight_sets"
        then obtain h where "4 \<le> h" "h \<le> 13" "?V = straight_values h"
          by (auto simp: straight_sets_iff)
        from straight_values_run [OF this] False show False by simp
      qed
      then have "?V \<in> {K. K \<subseteq> rank_values \<and> card K = 5} - straight_sets"
        using R np(1) by blast
      then have "(c, rev (sorted_list_of_set ?V)) \<in> high_descriptors c" for c
        unfolding high_descriptors_def by (rule image_eqI [rotated]) simp
      then show ?thesis
        unfolding np(2) using False by (auto simp: five_card_descriptors_def)
    qed
  qed
qed

subsection \<open>A hand for every descriptor\<close>

lemma card_value_card_id: "v \<in> rank_values \<Longrightarrow> card_value (card_id v s) = v"
proof -
  assume "v \<in> rank_values"
  then have "card_value v = v" by (simp add: rank_values_def card_value_of_value)
  moreover have "card_value (card_id v s) = card_value v"
    by (simp add: card_id_def card_value_def)
  ultimately show ?thesis by simp
qed

lemma suit_card_id: "card_id v s div 13 = s"
proof -
  have "0 \<le> v mod 13" "v mod 13 < 13" by simp_all
  then show ?thesis unfolding card_id_def by (simp add: div_pos_pos_trivial)
qed

lemma card_id_range: "0 \<le> s \<Longrightarrow> s \<le> 3 \<Longrightarrow> 0 \<le> card_id v s \<and> card_id v s \<le> 51"
proof -
  assume "0 \<le> s" "s \<le> 3"
  moreover have "0 \<le> v mod 13" "v mod 13 < 13" by simp_all
  ultimately show ?thesis unfolding card_id_def by linarith
qed

lemma card_id_eq_iff:
  assumes "v \<in> rank_values" and "w \<in> rank_values"
  shows "card_id v s = card_id w t \<longleftrightarrow> v = w \<and> s = t"
proof
  assume e: "card_id v s = card_id w t"
  then have "card_value (card_id v s) = card_value (card_id w t)"
    and "card_id v s div 13 = card_id w t div 13" by simp_all
  then show "v = w \<and> s = t" using assms by (simp add: card_value_card_id suit_card_id)
qed simp

lemma five_cards_ids:
  assumes "distinct [c1, c2, c3, c4, c5]"
    and "\<forall>c\<in>set [c1, c2, c3, c4, c5]. 0 \<le> c \<and> c \<le> 51"
  shows "five_cards [c1, c2, c3, c4, c5]"
  using assms by (auto simp: five_cards_def)

lemma realise_four:
  assumes "q \<in> rank_values" and "k \<in> rank_values" and "q \<noteq> k"
  shows "\<exists>cards. five_cards cards \<and> assess_hand cards = Inr (FOUR, [q, k])"
proof -
  define cards where "cards = [card_id q 0, card_id q 1, card_id q 2, card_id q 3, card_id k 0]"
  have vals: "map card_value cards = [q, q, q, q, k]"
    using assms by (simp add: cards_def card_value_card_id)
  have fc: "five_cards cards"
    unfolding cards_def using assms
    by (intro five_cards_ids) (simp_all add: card_id_eq_iff card_id_range)
  have "count_list (map card_value cards) q = 4" using assms(3) by (simp add: vals)
  from five_four_of_a_kind [OF fc this] obtain k' where
    k': "k' \<noteq> q" "card_value ` set cards = {q, k'}" "assess_hand cards = Inr (FOUR, [q, k'])"
    by blast
  have "set (map card_value cards) = set [q, q, q, q, k]" by (simp only: vals)
  then have "card_value ` set cards = {q, k}" by simp
  with k'(1,2) assms(3) have "k' = k" by auto
  with fc k'(3) show ?thesis by blast
qed

lemma realise_full_house:
  assumes "a \<in> rank_values" and "b \<in> rank_values" and "a \<noteq> b"
  shows "\<exists>cards. five_cards cards \<and> assess_hand cards = Inr (FULL_HOUSE, [a, b])"
proof -
  define cards where "cards = [card_id a 0, card_id a 1, card_id a 2, card_id b 0, card_id b 1]"
  have vals: "map card_value cards = [a, a, a, b, b]"
    using assms by (simp add: cards_def card_value_card_id)
  have fc: "five_cards cards"
    unfolding cards_def using assms
    by (intro five_cards_ids) (simp_all add: card_id_eq_iff card_id_range)
  have "count_list (map card_value cards) a = 3" "count_list (map card_value cards) b = 2"
    using assms(3) by (simp_all add: vals)
  from five_full_house [OF fc this] fc show ?thesis by blast
qed

lemma realise_three:
  assumes "t \<in> rank_values" and "K \<subseteq> rank_values - {t}" and "card K = 2"
  shows "\<exists>cards. five_cards cards \<and>
           assess_hand cards = Inr (THREE, t # rev (sorted_list_of_set K))"
proof -
  from assms(3) obtain x y where K: "K = {x, y}" "x \<noteq> y" by (auto simp: card_2_iff)
  then have xy: "x \<in> rank_values" "y \<in> rank_values" "x \<noteq> t" "y \<noteq> t" using assms(2) by auto
  define cards where "cards = [card_id t 0, card_id t 1, card_id t 2, card_id x 0, card_id y 0]"
  have vals: "map card_value cards = [t, t, t, x, y]"
    using assms(1) xy by (simp add: cards_def card_value_card_id)
  have fc: "five_cards cards"
    unfolding cards_def using assms(1) xy K(2)
    by (intro five_cards_ids) (simp_all add: card_id_eq_iff card_id_range)
  have c3: "count_list (map card_value cards) t = 3" using xy by (simp add: vals)
  have n2: "count_list (map card_value cards) v \<noteq> 2" for v
    using xy K(2) by (simp add: vals)
  have "set (map card_value cards) = set [t, t, t, x, y]" by (simp only: vals)
  then have "card_value ` set cards - {t} = K" using xy K(1) by auto
  with five_three_of_a_kind [OF fc c3 n2] fc show ?thesis by auto
qed

lemma realise_two_pair:
  assumes "P \<subseteq> rank_values" and "card P = 2" and "k \<in> rank_values - P"
  shows "\<exists>cards. five_cards cards \<and>
           assess_hand cards = Inr (TWO_PAIR, rev (sorted_list_of_set P) @ [k])"
proof -
  from assms(2) obtain a b where P: "P = {a, b}" "a \<noteq> b" by (auto simp: card_2_iff)
  then have ab: "a \<in> rank_values" "b \<in> rank_values" "k \<in> rank_values" "k \<noteq> a" "k \<noteq> b"
    using assms(1,3) by auto
  define cards where "cards = [card_id a 0, card_id a 1, card_id b 0, card_id b 1, card_id k 0]"
  have vals: "map card_value cards = [a, a, b, b, k]"
    using ab by (simp add: cards_def card_value_card_id)
  have fc: "five_cards cards"
    unfolding cards_def using ab P(2)
    by (intro five_cards_ids) (simp_all add: card_id_eq_iff card_id_range)
  have c: "count_list (map card_value cards) a = 2" "count_list (map card_value cards) b = 2"
    using ab P(2) by (simp_all add: vals)
  from five_two_pair [OF fc P(2) c] obtain k' where
    k': "k' \<noteq> a" "k' \<noteq> b" "card_value ` set cards = {a, b, k'}"
      "assess_hand cards = Inr (TWO_PAIR, [max a b, min a b, k'])" by blast
  have "set (map card_value cards) = set [a, a, b, b, k]" by (simp only: vals)
  then have "card_value ` set cards = {a, b, k}" by simp
  with k'(1-3) ab(4,5) have "k' = k" by auto
  moreover have "rev (sorted_list_of_set P) = [max a b, min a b]"
    using P by (auto simp: max_def min_def)
  ultimately show ?thesis using fc k'(4) by auto
qed

lemma realise_pair:
  assumes "p \<in> rank_values" and "K \<subseteq> rank_values - {p}" and "card K = 3"
  shows "\<exists>cards. five_cards cards \<and>
           assess_hand cards = Inr (PAIR, p # rev (sorted_list_of_set K))"
proof -
  from assms(3) obtain x y z where K: "K = {x, y, z}" "x \<noteq> y" "y \<noteq> z" "x \<noteq> z"
    by (auto simp: card_3_iff)
  then have xyz: "x \<in> rank_values" "y \<in> rank_values" "z \<in> rank_values"
    "x \<noteq> p" "y \<noteq> p" "z \<noteq> p" using assms(2) by auto
  define cards where "cards = [card_id p 0, card_id p 1, card_id x 0, card_id y 0, card_id z 0]"
  have vals: "map card_value cards = [p, p, x, y, z]"
    using assms(1) xyz by (simp add: cards_def card_value_card_id)
  have fc: "five_cards cards"
    unfolding cards_def using assms(1) xyz K(2-4)
    by (intro five_cards_ids) (simp_all add: card_id_eq_iff card_id_range)
  have c2: "count_list (map card_value cards) p = 2" using xyz by (simp add: vals)
  have le1: "count_list (map card_value cards) v \<le> 1" if "v \<noteq> p" for v
    using that K(2-4) by (simp add: vals)
  have "set (map card_value cards) = set [p, p, x, y, z]" by (simp only: vals)
  then have "card_value ` set cards - {p} = K" using xyz K(1) by auto
  with five_pair [OF fc c2 le1] fc show ?thesis by auto
qed

lemma list_of_five: "length xs = 5 \<Longrightarrow> \<exists>a b c d e. xs = [a, b, c, d, e]"
  by (auto simp: numeral_eq_Suc length_Suc_conv)

text \<open>Five cards of five given rank values, all of one suit or not.\<close>

lemma five_values_hands:
  assumes "K \<subseteq> rank_values" and "card K = 5"
  shows "\<exists>cards. five_cards cards \<and> card_value ` set cards = K \<and>
           (\<forall>v. count_list (map card_value cards) v \<le> 1) \<and>
           ((\<exists>s. \<forall>c\<in>set cards. c div 13 = s) \<longleftrightarrow> suited)"
proof -
  have "length (sorted_list_of_set K) = 5" using assms(2) by simp
  from list_of_five [OF this] obtain k1 k2 k3 k4 k5 where
    ks: "sorted_list_of_set K = [k1, k2, k3, k4, k5]" by blast
  have "0 < card K" using assms(2) by simp
  then have fin: "finite K" by (rule card_ge_0_finite)
  have dist: "distinct [k1, k2, k3, k4, k5]"
    using distinct_sorted_list_of_set [of K] unfolding ks .
  have K: "K = set [k1, k2, k3, k4, k5]"
    using set_sorted_list_of_set [OF fin] unfolding ks by simp
  then have R: "k1 \<in> rank_values" "k2 \<in> rank_values" "k3 \<in> rank_values"
    "k4 \<in> rank_values" "k5 \<in> rank_values" using assms(1) by auto
  define s1 :: int where "s1 = (if suited then 0 else 1)"
  define cards where
    "cards = [card_id k1 s1, card_id k2 0, card_id k3 0, card_id k4 0, card_id k5 0]"
  have s1: "0 \<le> s1" "s1 \<le> 3" by (simp_all add: s1_def)
  have vals: "map card_value cards = [k1, k2, k3, k4, k5]"
    using R by (simp add: cards_def card_value_card_id)
  have fc: "five_cards cards"
    unfolding cards_def using R dist s1
    by (intro five_cards_ids) (simp_all add: card_id_eq_iff card_id_range)
  have le1: "count_list (map card_value cards) v \<le> 1" for v
    using dist by (auto simp: vals)
  have "set (map card_value cards) = set [k1, k2, k3, k4, k5]" by (simp only: vals)
  then have V: "card_value ` set cards = K" using K by simp
  have "(\<exists>s. \<forall>c\<in>set cards. c div 13 = s) \<longleftrightarrow> suited"
    by (auto simp: cards_def suit_card_id s1_def)
  with fc V le1 show ?thesis by blast
qed

lemma realise_top:
  assumes "4 \<le> h" and "h \<le> 13" and "c = STRAIGHT_FLUSH \<or> c = STRAIGHT"
  shows "\<exists>cards. five_cards cards \<and> assess_hand cards = Inr (c, [h])"
proof -
  have sub: "straight_values h \<subseteq> rank_values"
    using assms(1,2) by (auto simp: straight_values_def rank_values_def)
  from five_values_hands [OF sub card_straight_values [OF assms(1)], of "c = STRAIGHT_FLUSH"]
  obtain cards where cards: "five_cards cards" "card_value ` set cards = straight_values h"
    "\<And>v. count_list (map card_value cards) v \<le> 1"
    "(\<exists>s. \<forall>c\<in>set cards. c div 13 = s) \<longleftrightarrow> c = STRAIGHT_FLUSH"
    by blast
  have sv: "longest_run (sorted_list_of_set (seq_keys cards)) = [h - 4, h - 3, h - 2, h - 1, h]"
    using assms(1,2) cards(2) by (rule straight_values_run)
  have "assess_hand cards = Inr (c, [h])"
    unfolding five_no_pair(2) [OF cards(1,3)] sv using cards(4) assms(3) by auto
  with cards(1) show ?thesis by blast
qed

lemma realise_high:
  assumes "K \<subseteq> rank_values" and "card K = 5" and "K \<notin> straight_sets"
    and "c = FLUSH \<or> c = HIGH_CARD"
  shows "\<exists>cards. five_cards cards \<and> assess_hand cards = Inr (c, rev (sorted_list_of_set K))"
proof -
  from five_values_hands [OF assms(1,2), of "c = FLUSH"]
  obtain cards where cards: "five_cards cards" "card_value ` set cards = K"
    "\<And>v. count_list (map card_value cards) v \<le> 1"
    "(\<exists>s. \<forall>c\<in>set cards. c div 13 = s) \<longleftrightarrow> c = FLUSH"
    by blast
  have len: "length (longest_run (sorted_list_of_set (seq_keys cards))) \<noteq> 5"
  proof
    assume "length (longest_run (sorted_list_of_set (seq_keys cards))) = 5"
    from run_is_straight_values [OF this] cards(2) assms(2)
    have "K \<in> straight_sets" by (auto simp: straight_sets_iff)
    with assms(3) show False by simp
  qed
  have "assess_hand cards = Inr (c, rev (sorted_list_of_set K))"
    unfolding five_no_pair(2) [OF cards(1,3)] cards(2) using len cards(4) assms(4) by auto
  with cards(1) show ?thesis by blast
qed

lemma descriptor_realised:
  assumes "d \<in> five_card_descriptors"
  shows "\<exists>cards. five_cards cards \<and> assess_hand cards = Inr d"
proof -
  from assms consider
      "d \<in> top_descriptors STRAIGHT_FLUSH" | "d \<in> two_value_descriptors FOUR"
    | "d \<in> two_value_descriptors FULL_HOUSE" | "d \<in> high_descriptors FLUSH"
    | "d \<in> top_descriptors STRAIGHT" | "d \<in> kicker_descriptors THREE 2"
    | "d \<in> two_pair_descriptors" | "d \<in> kicker_descriptors PAIR 3"
    | "d \<in> high_descriptors HIGH_CARD"
    unfolding five_card_descriptors_def by blast
  then show ?thesis
  proof cases
    case 1
    then show ?thesis using realise_top [of _ STRAIGHT_FLUSH] by (auto simp: top_descriptors_def)
  next
    case 2
    then show ?thesis using realise_four by (auto simp: two_value_descriptors_def)
  next
    case 3
    then show ?thesis using realise_full_house by (auto simp: two_value_descriptors_def)
  next
    case 4
    then show ?thesis using realise_high [of _ FLUSH] by (auto simp: high_descriptors_def)
  next
    case 5
    then show ?thesis using realise_top [of _ STRAIGHT] by (auto simp: top_descriptors_def)
  next
    case 6
    then show ?thesis using realise_three by (auto simp: kicker_descriptors_def)
  next
    case 7
    then show ?thesis using realise_two_pair by (auto simp: two_pair_descriptors_def)
  next
    case 8
    then show ?thesis using realise_pair by (auto simp: kicker_descriptors_def)
  next
    case 9
    then show ?thesis using realise_high [of _ HIGH_CARD] by (auto simp: high_descriptors_def)
  qed
qed

subsection \<open>Counting the descriptors of five-card hands\<close>

lemma choose_step: "0 < k \<Longrightarrow> 0 < n \<Longrightarrow> n choose k = (n * ((n - 1) choose (k - 1))) div k"
  using binomial_Suc_Suc_eq_times [of "n - 1" "k - 1"] by simp

lemma finite_rank_values [simp]: "finite rank_values"
  by (simp add: rank_values_def)

lemma card_rank_values: "card rank_values = 13"
  by (simp add: rank_values_def)

lemma card_top_descriptors: "card (top_descriptors c) = 10"
proof -
  have "inj_on (\<lambda>h::int. (c, [h])) {4..13}" by (simp add: inj_on_def)
  then have "card (top_descriptors c) = card {4..13::int}"
    unfolding top_descriptors_def by (rule card_image)
  then show ?thesis by simp
qed

lemma card_two_value_descriptors: "card (two_value_descriptors c) = 156"
proof -
  have "inj_on (\<lambda>(q::int, k::int). (c, [q, k])) (SIGMA q:rank_values. rank_values - {q})"
    by (auto simp: inj_on_def)
  then have "card (two_value_descriptors c) = card (SIGMA q:rank_values. rank_values - {q})"
    unfolding two_value_descriptors_def by (rule card_image)
  also have "\<dots> = (\<Sum>q\<in>rank_values. card (rank_values - {q}))"
    by (rule card_SigmaI) simp_all
  also have "\<dots> = (\<Sum>q\<in>rank_values. 12)"
    by (rule sum.cong) (simp_all add: card_rank_values)
  also have "\<dots> = 156" by (simp add: card_rank_values)
  finally show ?thesis .
qed

lemma sorted_list_of_set_inj:
  assumes "finite A" and "finite B" and "sorted_list_of_set A = sorted_list_of_set B"
  shows "A = B"
  using assms by (metis set_sorted_list_of_set)

lemma finite_subsets_of_ranks:
  "finite {K. K \<subseteq> rank_values - S \<and> card K = n}"
  by (rule finite_subset [of _ "Pow rank_values"]) auto

lemma card_kicker_descriptors: "card (kicker_descriptors c n) = 13 * (12 choose n)"
proof -
  let ?S = "SIGMA t:rank_values. {K. K \<subseteq> rank_values - {t} \<and> card K = n}"
  have fin: "finite K" if "K \<subseteq> rank_values - {t}" for K t
    using that by (rule finite_subset) simp
  have "inj_on (\<lambda>(t, K). (c, t # rev (sorted_list_of_set K))) ?S"
  proof (rule inj_onI)
    fix x y assume x: "x \<in> ?S" and y: "y \<in> ?S"
      and e: "(case x of (t, K) \<Rightarrow> (c, t # rev (sorted_list_of_set K)))
            = (case y of (t, K) \<Rightarrow> (c, t # rev (sorted_list_of_set K)))"
    obtain t K where xx: "x = (t, K)" by (cases x)
    obtain t' K' where yy: "y = (t', K')" by (cases y)
    from e have "t = t'" "sorted_list_of_set K = sorted_list_of_set K'"
      by (simp_all add: xx yy)
    moreover have "finite K" "finite K'" using x y fin by (auto simp: xx yy)
    ultimately show "x = y" using sorted_list_of_set_inj by (simp add: xx yy)
  qed
  then have "card (kicker_descriptors c n) = card ?S"
    unfolding kicker_descriptors_def by (rule card_image)
  also have "\<dots> = (\<Sum>t\<in>rank_values. card {K. K \<subseteq> rank_values - {t} \<and> card K = n})"
    by (rule card_SigmaI) (simp_all add: finite_subsets_of_ranks)
  also have "\<dots> = (\<Sum>t\<in>rank_values. 12 choose n)"
    by (rule sum.cong) (simp_all add: n_subsets card_rank_values)
  also have "\<dots> = 13 * (12 choose n)" by (simp add: card_rank_values)
  finally show ?thesis .
qed

lemma card_two_pair_descriptors: "card two_pair_descriptors = 858"
proof -
  let ?S = "SIGMA P:{P. P \<subseteq> rank_values \<and> card P = 2}. rank_values - P"
  have fin: "finite P" if "P \<subseteq> rank_values" for P
    using that by (rule finite_subset) simp
  have "inj_on (\<lambda>(P, k). (TWO_PAIR, rev (sorted_list_of_set P) @ [k])) ?S"
  proof (rule inj_onI)
    fix x y assume x: "x \<in> ?S" and y: "y \<in> ?S"
      and e: "(case x of (P, k) \<Rightarrow> (TWO_PAIR, rev (sorted_list_of_set P) @ [k]))
            = (case y of (P, k) \<Rightarrow> (TWO_PAIR, rev (sorted_list_of_set P) @ [k]))"
    obtain P k where xx: "x = (P, k)" by (cases x)
    obtain P' k' where yy: "y = (P', k')" by (cases y)
    from e have "k = k'" "sorted_list_of_set P = sorted_list_of_set P'"
      by (simp_all add: xx yy)
    moreover have "finite P" "finite P'" using x y fin by (auto simp: xx yy)
    ultimately show "x = y" using sorted_list_of_set_inj by (simp add: xx yy)
  qed
  then have "card two_pair_descriptors = card ?S"
    unfolding two_pair_descriptors_def by (rule card_image)
  also have "\<dots> = (\<Sum>P\<in>{P. P \<subseteq> rank_values \<and> card P = 2}. card (rank_values - P))"
    using finite_subsets_of_ranks [of "{}" 2] by (intro card_SigmaI) simp_all
  also have "\<dots> = (\<Sum>P\<in>{P. P \<subseteq> rank_values \<and> card P = 2}. 11)"
    by (rule sum.cong) (auto simp: card_Diff_subset card_rank_values fin)
  also have "\<dots> = 11 * card {P. P \<subseteq> rank_values \<and> card P = 2}" by simp
  also have "\<dots> = 858" by (simp add: n_subsets card_rank_values choose_step)
  finally show ?thesis .
qed

lemma straight_values_top:
  assumes "4 \<le> h" and "h \<le> 13"
  shows "h \<in> straight_values h"
    and "h \<noteq> 4 \<Longrightarrow> \<forall>v\<in>straight_values h. h - 4 \<le> v \<and> v \<le> h"
  using assms by (auto simp: straight_values_def)

lemma inj_on_straight_values: "inj_on straight_values {4..13}"
proof (rule inj_onI)
  fix h h' :: int
  assume h: "h \<in> {4..13}" and h': "h' \<in> {4..13}"
    and e: "straight_values h = straight_values h'"
  have wheel: False if "k \<noteq> 4" "4 \<le> k" "k \<le> 13" "straight_values 4 = straight_values k" for k
  proof -
    have "13 \<in> straight_values k" "1 \<in> straight_values k"
      using that(4) by (auto simp: straight_values_def)
    moreover note b = straight_values_top(2) [OF that(2,3,1)]
    ultimately have "13 \<le> k" "k - 4 \<le> 1" by blast+
    then show False by simp
  qed
  show "h = h'"
  proof (cases "h = 4 \<or> h' = 4")
    case True
    then show ?thesis using wheel [of h] wheel [of h'] h h' e by auto
  next
    case False
    have "h \<in> straight_values h'" "h' \<in> straight_values h"
      using straight_values_top(1) [of h] straight_values_top(1) [of h'] h h' e by auto
    moreover have "\<forall>v\<in>straight_values h. v \<le> h" "\<forall>v\<in>straight_values h'. v \<le> h'"
      using straight_values_top(2) [of h] straight_values_top(2) [of h'] h h' False by auto
    ultimately have "h \<le> h'" "h' \<le> h" by blast+
    then show ?thesis by simp
  qed
qed

lemma card_high_descriptors: "card (high_descriptors c) = 1277"
proof -
  let ?F = "{K. K \<subseteq> rank_values \<and> card K = 5}"
  have finF: "finite ?F" using finite_subsets_of_ranks [of "{}" 5] by simp
  have fin: "finite K" if "K \<subseteq> rank_values" for K
    using that by (rule finite_subset) simp
  have sub: "straight_sets \<subseteq> ?F"
    by (auto simp: straight_sets_def straight_values_def rank_values_def)
  have "inj_on (\<lambda>K. (c, rev (sorted_list_of_set K))) (?F - straight_sets)"
  proof (rule inj_onI)
    fix K K' assume "K \<in> ?F - straight_sets" "K' \<in> ?F - straight_sets"
      and "(c, rev (sorted_list_of_set K)) = (c, rev (sorted_list_of_set K'))"
    then show "K = K'" using sorted_list_of_set_inj [of K K'] fin by auto
  qed
  then have "card (high_descriptors c) = card (?F - straight_sets)"
    unfolding high_descriptors_def by (rule card_image)
  also have "\<dots> = card ?F - card straight_sets"
    using sub finF by (intro card_Diff_subset) (auto intro: finite_subset)
  also have "card straight_sets = 10"
    unfolding straight_sets_def using card_image [OF inj_on_straight_values] by simp
  also have "card ?F = 1287" by (simp add: n_subsets card_rank_values choose_step)
  finally show ?thesis by simp
qed

lemma fst_descriptors:
  "d \<in> top_descriptors c \<Longrightarrow> fst d = c"
  "d \<in> two_value_descriptors c \<Longrightarrow> fst d = c"
  "d \<in> kicker_descriptors c n \<Longrightarrow> fst d = c"
  "d \<in> two_pair_descriptors \<Longrightarrow> fst d = TWO_PAIR"
  "d \<in> high_descriptors c \<Longrightarrow> fst d = c"
  by (auto simp: top_descriptors_def two_value_descriptors_def kicker_descriptors_def
      two_pair_descriptors_def high_descriptors_def)

lemma card_Un_by_category:
  assumes "finite A \<and> card A = m \<and> (\<forall>d\<in>A. fst d \<in> S)"
    and "card B = n" and "0 < n" and "\<And>d. d \<in> B \<Longrightarrow> fst d = c" and "c \<notin> S"
  shows "finite (A \<union> B) \<and> card (A \<union> B) = m + n \<and> (\<forall>d\<in>A \<union> B. fst d \<in> insert c S)"
proof -
  have fB: "finite B" using assms(2,3) card_ge_0_finite by blast
  have "A \<inter> B = {}" using assms(1,4,5) by auto
  then have "card (A \<union> B) = card A + card B"
    using assms(1) fB by (intro card_Un_disjoint) simp_all
  then show ?thesis using assms(1,2,4) fB by auto
qed

lemma card_five_card_descriptors: "card five_card_descriptors = 7462"
proof -
  have k2: "card (kicker_descriptors c 2) = 858" and k3: "card (kicker_descriptors c 3) = 2860"
    for c by (simp_all add: card_kicker_descriptors choose_step)
  have 1: "finite (top_descriptors STRAIGHT_FLUSH) \<and> card (top_descriptors STRAIGHT_FLUSH) = 10 \<and>
      (\<forall>d\<in>top_descriptors STRAIGHT_FLUSH. fst d \<in> {STRAIGHT_FLUSH})"
    using card_top_descriptors [of STRAIGHT_FLUSH] fst_descriptors(1) [of _ STRAIGHT_FLUSH]
      card_ge_0_finite [of "top_descriptors STRAIGHT_FLUSH"] by simp
  note 2 = card_Un_by_category [OF 1 card_two_value_descriptors [of FOUR] _
      fst_descriptors(2) [of _ FOUR]]
  note 3 = card_Un_by_category [OF 2 card_two_value_descriptors [of FULL_HOUSE] _
      fst_descriptors(2) [of _ FULL_HOUSE]]
  note 4 = card_Un_by_category [OF 3 card_high_descriptors [of FLUSH] _
      fst_descriptors(5) [of _ FLUSH]]
  note 5 = card_Un_by_category [OF 4 card_top_descriptors [of STRAIGHT] _
      fst_descriptors(1) [of _ STRAIGHT]]
  note 6 = card_Un_by_category [OF 5 k2 [of THREE] _ fst_descriptors(3) [of _ THREE 2]]
  note 7 = card_Un_by_category [OF 6 card_two_pair_descriptors _ fst_descriptors(4)]
  note 8 = card_Un_by_category [OF 7 k3 [of PAIR] _ fst_descriptors(3) [of _ PAIR 3]]
  note 9 = card_Un_by_category [OF 8 card_high_descriptors [of HIGH_CARD] _
      fst_descriptors(5) [of _ HIGH_CARD]]
  from 9 show ?thesis unfolding five_card_descriptors_def by simp
qed

lemma five_card_image:
  "assess_hand ` {cards. five_cards cards} = Inr ` five_card_descriptors"
proof
  show "assess_hand ` {cards. five_cards cards} \<subseteq> Inr ` five_card_descriptors"
    using five_cards_descriptor by auto
  show "Inr ` five_card_descriptors \<subseteq> assess_hand ` {cards. five_cards cards}"
  proof
    fix r :: "py_error + descriptor" assume "r \<in> Inr ` five_card_descriptors"
    then obtain d where d: "d \<in> five_card_descriptors" "r = Inr d" by blast
    from descriptor_realised [OF d(1)] obtain cards where
      "five_cards cards" "assess_hand cards = Inr d" by blast
    then show "r \<in> assess_hand ` {cards. five_cards cards}"
      using d(2) by (metis (mono_tags, lifting) image_eqI mem_Collect_eq)
  qed
qed

lemma five_card_count: "card (assess_hand ` {cards. five_cards cards}) = 7462"
proof -
  have "card (Inr ` five_card_descriptors :: (py_error + descriptor) set)
      = card five_card_descriptors"
    by (rule card_image) simp
  then show ?thesis by (simp add: five_card_image card_five_card_descriptors)
qed

text \<open>Every descriptor of a five-card hand has the arity of its category.\<close>

lemma length_descriptors:
  "d \<in> top_descriptors c \<Longrightarrow> length (snd d) = 1"
  "d \<in> two_value_descriptors c \<Longrightarrow> length (snd d) = 2"
  "d \<in> kicker_descriptors c n \<Longrightarrow> length (snd d) = Suc n"
  "d \<in> two_pair_descriptors \<Longrightarrow> length (snd d) = 3"
  "d \<in> high_descriptors c \<Longrightarrow> length (snd d) = 5"
  by (auto simp: top_descriptors_def two_value_descriptors_def kicker_descriptors_def
      two_pair_descriptors_def high_descriptors_def)

lemma five_card_descriptors_arity:
  assumes "d \<in> five_card_descriptors"
  shows "has_ref_arity d"
proof -
  from assms consider
    "d \<in> top_descriptors STRAIGHT_FLUSH" | "d \<in> two_value_descriptors FOUR"
    | "d \<in> two_value_descriptors FULL_HOUSE" | "d \<in> high_descriptors FLUSH"
    | "d \<in> top_descriptors STRAIGHT" | "d \<in> kicker_descriptors THREE 2"
    | "d \<in> two_pair_descriptors" | "d \<in> kicker_descriptors PAIR 3"
    | "d \<in> high_descriptors HIGH_CARD"
    unfolding five_card_descriptors_def by blast
  then show ?thesis
    by cases (simp_all add: has_ref_arity_def fst_descriptors length_descriptors)
qed

lemma five_cards_arity:
  assumes "five_cards cards" and "assess_hand cards = Inr d"
  shows "has_ref_arity d"
proof -
  have "Inr d \<in> assess_hand ` {cards. five_cards cards}"
    using assms by (metis (mono_tags, lifting) image_eqI mem_Collect_eq)
  then have "d \<in> five_card_descriptors" unfolding five_card_image by blast
  then show ?thesis by (rule five_card_descriptors_arity)
qed

lemma no_five_card_tuple:
  "\<not> has_ref_arity d \<Longrightarrow> Inr d \<notin> assess_hand ` {cards. five_cards cards}"
  unfolding five_card_image using five_card_descriptors_arity by blast

subsection \<open>The arity of the descriptor of a well-formed hand\<close>

text \<open>
  On five to seven distinct cards the tuple of \<open>assess_hand\<close> has the arity of its
  category, except when two rank values occur three times each: then no earlier branch
  applies, both values are excluded from the kickers and at most one kicker is left.
\<close>

lemma py_bind_eq_Inr: "py_bind m f = Inr d \<longleftrightarrow> (\<exists>x. m = Inr x \<and> f x = Inr d)"
  by (cases m) simp_all

lemma counts_split:
  assumes "a \<noteq> b" and "a \<in> set xs" and "b \<in> set xs"
  shows "count_list xs a + count_list xs b + sum (count_list xs) (set xs - {a, b}) = length xs"
proof -
  have "sum (count_list xs) (set xs) = length xs" by (rule sum_count_set) simp_all
  moreover have "sum (count_list xs) (set xs) =
      sum (count_list xs) (set xs - {a, b}) + sum (count_list xs) {a, b}"
    using assms(2,3) by (intro sum.subset_diff) simp_all
  ultimately show ?thesis using assms(1) by simp
qed

lemma card_le_counts: "card (set xs - S) \<le> sum (count_list xs) (set xs - S)"
proof -
  have "card (set xs - S) = sum (\<lambda>_. 1) (set xs - S)" by simp
  also have "\<dots> \<le> sum (count_list xs) (set xs - S)"
  proof (rule sum_mono)
    fix v assume "v \<in> set xs - S"
    then show "1 \<le> count_list xs v" by (intro count_pos) simp
  qed
  finally show ?thesis .
qed

lemma count_list_filter: "count_list (map f xs) s = length (filter (\<lambda>c. f c = s) xs)"
  by (induction xs) simp_all

lemma suit_count_le_values:
  assumes "distinct cards"
  shows "count_list (map (\<lambda>c. c div 13) cards) s \<le> card (card_value ` set cards)"
proof -
  let ?F = "filter (\<lambda>c. c div 13 = s) cards"
  have "count_list (map (\<lambda>c. c div 13) cards) s = length ?F" by (rule count_list_filter)
  also have "\<dots> = card (set ?F)"
  proof -
    have "distinct ?F" using assms by simp
    then show ?thesis by (rule distinct_card [symmetric])
  qed
  also have "\<dots> = card (card_value ` set ?F)"
    by (rule card_image [symmetric], rule card_value_inj_on_suit [of _ s]) simp
  also have "\<dots> \<le> card (card_value ` set cards)" by (intro card_mono) auto
  finally show ?thesis .
qed

lemma flush_cards_length:
  assumes "flush_suite cards \<noteq> Inr None" and "cards \<noteq> []"
  shows "length (sort_cards cards (projr (flush_suite cards)) True True) = 5"
    and "\<exists>s. count_list (map (\<lambda>c. c div 13) cards) s = 5"
proof -
  from flush_suite_top [OF assms(2)] obtain s where
    s: "flush_suite cards = Inr (if count_list (map (\<lambda>c. c div 13) cards) s = 5 then Some s else None)"
    by blast
  with assms(1) have c5: "count_list (map (\<lambda>c. c div 13) cards) s = 5"
    by (simp split: if_splits)
  then show "\<exists>s. count_list (map (\<lambda>c. c div 13) cards) s = 5" by blast
  have fs: "flush_suite cards = Inr (Some s)" using s c5 by simp
  have "length (filter (\<lambda>c. c div 13 = s) cards) = 5"
    using c5 by (simp add: count_list_filter)
  then show "length (sort_cards cards (projr (flush_suite cards)) True True) = 5"
    by (simp add: fs sort_cards_def)
qed

lemma well_formed_arity:
  assumes "distinct cards" and "set cards \<subseteq> {0..51}"
    and "5 \<le> length cards" and "length cards \<le> 7"
    and "assess_hand cards = Inr d"
  shows "has_ref_arity d \<longleftrightarrow>
     \<not> (\<exists>x y. x \<noteq> y \<and> count_list (map card_value cards) x = 3 \<and>
              count_list (map card_value cards) y = 3)"
proof -
  let ?vals = "map card_value cards"
  let ?cnt = "count_list ?vals"
  let ?V = "card_value ` set cards"
  let ?sv = "longest_run (sorted_list_of_set (seq_keys cards))"
  let ?dup = "group_duplicates cards"
  let ?TT = "\<exists>x y. x \<noteq> y \<and> ?cnt x = 3 \<and> ?cnt y = 3"
  note wf = well_formed_no_error [OF assms(1-4)]
  have "card ?V \<noteq> 0" using wf(2) by simp
  with wf(3) have c2: "2 \<le> card ?V" by linarith
  from top_two [OF c2] obtain a b where t: "a \<noteq> b" "a \<in> ?V" "b \<in> ?V"
    "most_common 2 (Counter ?vals) = [(a, ?cnt a), (b, ?cnt b)]"
    "?cnt b \<le> ?cnt a"
    "\<And>v. v \<in> ?V \<Longrightarrow> v \<noteq> a \<Longrightarrow> v \<noteq> b \<Longrightarrow> ?cnt v \<le> ?cnt b"
    by metis
  have dup: "?dup m = (if ?cnt a = m then [a] else []) @ (if ?cnt b = m then [b] else [])" for m
    using t(4) by (rule group_duplicates_top_two)
  have le4: "?cnt a \<le> 4" by (rule count_value_le_4 [OF assms(1,2)])
  have b1: "1 \<le> ?cnt b" using t(3) by (intro count_pos) simp
  have top: "?cnt v \<le> ?cnt a" if "v \<in> ?V" for v
    using t(6) [of v] t(5) that by (cases "v = a"; cases "v = b") auto
  have split: "?cnt a + ?cnt b + sum ?cnt (?V - {a, b}) = length cards"
    using counts_split [of a b ?vals] t(1-3) by simp
  have "card (?V - {a, b}) \<le> sum ?cnt (?V - {a, b})"
    using card_le_counts [of ?vals "{a, b}"] by simp
  with split have bound: "?cnt a + ?cnt b + card (?V - {a, b}) \<le> length cards" by simp
  have cardV: "card ?V = card (?V - {a, b}) + 2"
  proof -
    have "card (?V - {a, b}) = card ?V - card {a, b}"
      using t(2,3) by (intro card_Diff_subset) simp_all
    moreover have "card {a, b} = 2" using t(1) by simp
    ultimately show ?thesis using c2 by simp
  qed
  have unit: "sum ?cnt (?V - {a, b}) = card (?V - {a, b})" if "?cnt b = 1"
  proof -
    have "?cnt v = 1" if "v \<in> ?V - {a, b}" for v
    proof -
      have "1 \<le> ?cnt v" using that by (intro count_pos) simp
      moreover have "?cnt v \<le> ?cnt b" using that t(6) [of v] by simp
      ultimately show ?thesis using \<open>?cnt b = 1\<close> by simp
    qed
    then show ?thesis using card_by_unit_counts [of "?V - {a, b}" ?cnt] by simp
  qed
  have TT: "?TT \<longleftrightarrow> ?cnt a = 3 \<and> ?cnt b = 3"
  proof
    assume ?TT
    then obtain x y where xy: "x \<noteq> y" "?cnt x = 3" "?cnt y = 3" by blast
    then have mem: "x \<in> ?V" "y \<in> ?V" using count_mem [of ?vals] by simp_all
    have a3: "?cnt a = 3"
    proof (rule ccontr)
      assume n3: "?cnt a \<noteq> 3"
      have "3 \<le> ?cnt a" using top [OF mem(1)] xy(2) by simp
      with n3 le4 have a4: "?cnt a = 4" by simp
      then have "a \<noteq> x" "a \<noteq> y" using xy(2,3) by auto
      then have "sum ?cnt {a, x, y} = ?cnt a + ?cnt x + ?cnt y" using xy(1) by simp
      moreover have "sum ?cnt {a, x, y} \<le> length ?vals" by (rule count_sum_le) simp
      ultimately show False using a4 xy(2,3) assms(4) by simp
    qed
    have "\<exists>z. z \<noteq> a \<and> ?cnt z = 3 \<and> z \<in> ?V"
    proof (cases "x = a")
      case True
      then have "y \<noteq> a" using xy(1) by simp
      with xy(3) mem(2) show ?thesis by blast
    next
      case False
      with xy(2) mem(1) show ?thesis by blast
    qed
    then obtain z where z: "z \<noteq> a" "?cnt z = 3" "z \<in> ?V" by blast
    have "3 \<le> ?cnt b"
    proof (cases "z = b")
      case True
      then show ?thesis using z(2) by simp
    next
      case False
      then show ?thesis using t(6) [OF z(3,1)] z(2) by simp
    qed
    with t(5) a3 show "?cnt a = 3 \<and> ?cnt b = 3" by simp
  next
    assume "?cnt a = 3 \<and> ?cnt b = 3"
    with t(1) show ?TT by blast
  qed
  have few: "card ?V \<le> 3" if ?TT
    using that bound cardV assms(4) unfolding TT by simp
  have no_run: "length ?sv \<noteq> 5" if ?TT
    using length_longest_run_keys [of cards] few [OF that] by simp
  have no_flush: "flush_suite cards = Inr None" if ?TT
  proof (rule ccontr)
    assume "flush_suite cards \<noteq> Inr None"
    from flush_cards_length(2) [OF this wf(2)] obtain s where
      "count_list (map (\<lambda>c. c div 13) cards) s = 5" by blast
    then show False using suit_count_le_values [OF assms(1), of s] few [OF that] by simp
  qed
  note body = assess_hand_body [OF wf(2,3)]
  show ?thesis
  proof (cases "length ?sv = 5")
    case True
    then have "fst d = STRAIGHT_FLUSH \<or> fst d = FOUR \<or> fst d = FULL_HOUSE \<or> fst d = FLUSH \<or> fst d = STRAIGHT"
      "length (snd d) = ref_arity (fst d)"
      using assms(5) flush_cards_length(1) [OF _ wf(2)] unfolding body
      by (auto simp: assess_rest_def py_bind_eq_Inr split: if_splits)
    then show ?thesis using True no_run by (auto simp: has_ref_arity_def)
  next
    case False
    have side_a: "length (select_side_cards cards [a]) = card (?V - {a, b}) + 1"
    proof -
      have "select_side_cards cards [a] = rev (sorted_list_of_set (?V - set [a]))"
        using t(2) by (intro side_cards_of_values) simp
      moreover have "card (?V - {a}) = card ?V - 1" using t(2) by simp
      ultimately show ?thesis using cardV by simp
    qed
    have side_ab: "length (select_side_cards cards [a, b]) = card (?V - {a, b})"
    proof -
      have "select_side_cards cards [a, b] = rev (sorted_list_of_set (?V - set [a, b]))"
        using t(2,3) by (intro side_cards_of_values) simp
      then show ?thesis by simp
    qed
    have fl: "length (sort_cards cards (projr (flush_suite cards)) True True) = 5"
      if "flush_suite cards \<noteq> Inr None"
      using that wf(2) by (rule flush_cards_length(1))
    from b1 t(5) le4 consider
      (four) "?cnt a = 4"
      | (trips) "?cnt a = 3" "?cnt b = 3"
      | (full) "?cnt a = 3" "?cnt b = 2"
      | (three) "?cnt a = 3" "?cnt b = 1"
      | (two_pair) "?cnt a = 2" "?cnt b = 2"
      | (pair) "?cnt a = 2" "?cnt b = 1"
      | (high) "?cnt a = 1" "?cnt b = 1"
      by linarith
    then show ?thesis
    proof cases
      case four
      then have d4: "?dup 4 \<noteq> []" by (simp add: dup)
      have "has_ref_arity d"
        using assms(5) unfolding body
        by (auto simp: False d4 has_ref_arity_def py_bind_eq_Inr)
      then show ?thesis using four by (simp add: TT)
    next
      case trips
      then have tt: ?TT by (simp add: TT)
      have d: "?dup 4 = []" "?dup 3 = [a, b]" "?dup 2 = []" using trips by (simp_all add: dup)
      have "d = (THREE, a # take 2 (select_side_cards cards [a, b]))"
        using assms(5) no_flush [OF tt] unfolding body
        by (simp add: False d assess_rest_def)
      moreover have "card (?V - {a, b}) \<le> 1" using bound trips assms(4) by simp
      ultimately have "\<not> has_ref_arity d"
        using side_ab by (simp add: has_ref_arity_def)
      then show ?thesis using tt by simp
    next
      case full
      then have d: "?dup 4 = []" "?dup 3 = [a]" "?dup 2 = [b]" by (simp_all add: dup)
      have "d = (FULL_HOUSE, [a, b])"
        using assms(5) unfolding body by (simp add: False d)
      then show ?thesis using full by (simp add: TT has_ref_arity_def)
    next
      case three
      then have d: "?dup 4 = []" "?dup 3 = [a]" "?dup 2 = []" by (simp_all add: dup)
      have "card (?V - {a, b}) + 4 = length cards"
        using split unit [OF three(2)] three by simp
      then have "2 \<le> length (select_side_cards cards [a])"
        using side_a assms(3) by simp
      then have "has_ref_arity d"
        using assms(5) fl unfolding body
        by (auto simp: False d assess_rest_def has_ref_arity_def split: if_splits)
      then show ?thesis using three by (simp add: TT)
    next
      case two_pair
      then have d: "?dup 4 = []" "?dup 3 = []" "?dup 2 = [a, b]" by (simp_all add: dup)
      have "has_ref_arity d"
        using assms(5) fl unfolding body
        by (auto simp: False d assess_rest_def has_ref_arity_def py_bind_eq_Inr
            split: if_splits)
      then show ?thesis using two_pair by (simp add: TT)
    next
      case pair
      then have d: "?dup 4 = []" "?dup 3 = []" "?dup 2 = [a]" by (simp_all add: dup)
      have "card (?V - {a, b}) + 3 = length cards"
        using split unit [OF pair(2)] pair by simp
      then have "3 \<le> length (select_side_cards cards [a])"
        using side_a assms(3) by simp
      then have "has_ref_arity d"
        using assms(5) fl unfolding body
        by (auto simp: False d assess_rest_def has_ref_arity_def split: if_splits)
      then show ?thesis using pair by (simp add: TT)
    next
      case high
      then have d: "?dup 4 = []" "?dup 3 = []" "?dup 2 = []" by (simp_all add: dup)
      have "length (sort_cards cards None True True) = length cards"
        by (simp add: sort_cards_def)
      then have "has_ref_arity d"
        using assms(5) fl assms(3) unfolding body
        by (auto simp: False d assess_rest_def has_ref_arity_def split: if_splits)
      then show ?thesis using high by (simp add: TT)
    qed
  qed
qed

lemma well_formed_descriptor:
  assumes "distinct cards" and "set cards \<subseteq> {0..51}"
    and "5 \<le> length cards" and "length cards \<le> 7"
  shows "\<exists>d. assess_hand cards = Inr d \<and>
     (has_ref_arity d \<longleftrightarrow>
        \<not> (\<exists>x y. x \<noteq> y \<and> count_list (map card_value cards) x = 3 \<and>
                 count_list (map card_value cards) y = 3))"
proof -
  from well_formed_no_error(1) [OF assms] obtain d where d: "assess_hand cards = Inr d"
    by (cases "assess_hand cards") auto
  from well_formed_arity [OF assms d] d show ?thesis by blast
qed

subsection \<open>The order of five cards does not matter\<close>

lemma counts_of_same_cards:
  assumes "distinct cards" and "distinct cards'" and "set cards = set cards'"
  shows "count_list (map card_value cards) v = count_list (map card_value cards') v"
proof -
  have "mset cards = mset cards'"
    using assms by (simp add: set_eq_iff_mset_eq_distinct)
  then have "mset (map card_value cards) = mset (map card_value cards')" by simp
  then have "count (mset (map card_value cards)) v = count (mset (map card_value cards')) v"
    by simp
  then show ?thesis by (simp only: count_mset)
qed

lemma five_cards_order:
  assumes "five_cards cards" and "five_cards cards'" and "set cards = set cards'"
  shows "assess_hand cards = assess_hand cards'"
proof -
  let ?cnt = "count_list (map card_value cards)"
  let ?V = "card_value ` set cards"
  have cnt: "count_list (map card_value cards') v = ?cnt v" for v
    using counts_of_same_cards [of cards' cards v] five_cards_wf(2) [OF assms(1)]
      five_cards_wf(2) [OF assms(2)] assms(3) by simp
  have V: "card_value ` set cards' = ?V" using assms(3) by simp
  have keys: "seq_keys cards' = seq_keys cards" by (simp add: seq_keys_def assms(3))
  from five_cards_patterns [OF assms(1)]
  consider (four) a where "?cnt a = 4"
    | (full) a b where "?cnt a = 3" "?cnt b = 2"
    | (three) a where "?cnt a = 3" "\<forall>v. ?cnt v \<noteq> 2"
    | (two_pair) a b where "a \<noteq> b" "?cnt a = 2" "?cnt b = 2"
    | (pair) a where "?cnt a = 2" "\<forall>v. v \<noteq> a \<longrightarrow> ?cnt v \<le> 1"
    | (none) "\<forall>v. ?cnt v \<le> 1"
    by blast
  then show ?thesis
  proof cases
    case four
    from five_four_of_a_kind [OF assms(1) four] obtain k where
      k: "k \<noteq> a" "?V = {a, k}" "assess_hand cards = Inr (FOUR, [a, k])" by blast
    from five_four_of_a_kind [OF assms(2), of a] four obtain k' where
      k': "k' \<noteq> a" "?V = {a, k'}" "assess_hand cards' = Inr (FOUR, [a, k'])"
      unfolding cnt V by blast
    from k(1,2) k'(1,2) have "k = k'" by auto
    with k(3) k'(3) show ?thesis by simp
  next
    case full
    from five_full_house [OF assms(1) full] five_full_house [OF assms(2), of a b] full
    show ?thesis unfolding cnt by simp
  next
    case three
    from five_three_of_a_kind [OF assms(1) three(1)]
      five_three_of_a_kind [OF assms(2), of a] three
    show ?thesis unfolding cnt V by simp
  next
    case two_pair
    from five_two_pair [OF assms(1) two_pair] obtain k where
      k: "k \<noteq> a" "k \<noteq> b" "?V = {a, b, k}"
        "assess_hand cards = Inr (TWO_PAIR, [max a b, min a b, k])" by blast
    from five_two_pair [OF assms(2) two_pair(1), unfolded cnt V, OF two_pair(2,3)] obtain k' where
      k': "k' \<noteq> a" "k' \<noteq> b" "?V = {a, b, k'}"
        "assess_hand cards' = Inr (TWO_PAIR, [max a b, min a b, k'])" by blast
    from k(1-3) k'(1-3) have "k = k'" by auto
    with k(4) k'(4) show ?thesis by simp
  next
    case pair
    from five_pair [OF assms(1) pair(1)] five_pair [OF assms(2), of a] pair
    show ?thesis unfolding cnt V by simp
  next
    case none
    then have le1: "\<And>v. ?cnt v \<le> 1" by blast
    then have le1': "\<And>v. count_list (map card_value cards') v \<le> 1" unfolding cnt .
    show ?thesis
      unfolding five_no_pair(2) [OF assms(1) le1] five_no_pair(2) [OF assms(2) le1']
      by (simp add: keys assms(3))
  qed
qed

lemma card_five_subsets: "card {S :: int set. S \<subseteq> {0..51} \<and> card S = 5} = 2598960"
  by (simp add: n_subsets choose_step)

lemma five_cards_sorted_list:
  assumes "S \<subseteq> {0..51}" and "card S = 5"
  shows "five_cards (sorted_list_of_set S)" and "set (sorted_list_of_set S) = S"
proof -
  have "0 < card S" using assms(2) by simp
  then have fin: "finite S" by (rule card_ge_0_finite)
  then show "set (sorted_list_of_set S) = S" by simp
  then show "five_cards (sorted_list_of_set S)"
    using assms by (simp add: five_cards_def)
qed

lemma five_subsets_image:
  "(\<lambda>S. assess_hand (sorted_list_of_set S)) ` {S. S \<subseteq> {0..51} \<and> card S = 5}
     = assess_hand ` {cards. five_cards cards}"
proof
  show "(\<lambda>S. assess_hand (sorted_list_of_set S)) ` {S. S \<subseteq> {0..51} \<and> card S = 5}
      \<subseteq> assess_hand ` {cards. five_cards cards}"
    using five_cards_sorted_list(1) by auto
  show "assess_hand ` {cards. five_cards cards}
      \<subseteq> (\<lambda>S. assess_hand (sorted_list_of_set S)) ` {S. S \<subseteq> {0..51} \<and> card S = 5}"
  proof
    fix r assume "r \<in> assess_hand ` {cards. five_cards cards}"
    then obtain cards where c: "five_cards cards" "r = assess_hand cards" by blast
    note wf = five_cards_wf [OF c(1)]
    have S: "set cards \<subseteq> {0..51}" "card (set cards) = 5"
      using wf(1-3) by (simp_all add: distinct_card)
    from five_cards_sorted_list [OF S] c(1)
    have "assess_hand (sorted_list_of_set (set cards)) = assess_hand cards"
      by (intro five_cards_order) simp_all
    then show "r \<in> (\<lambda>S. assess_hand (sorted_list_of_set S)) ` {S. S \<subseteq> {0..51} \<and> card S = 5}"
      using S c(2) by (intro image_eqI [of _ _ "set cards"]) simp_all
  qed
qed

section \<open>The claims\<close>

text \<open>
  C10: \<open>card_value\<close> is idempotent, so \<open>select_side_cards\<close> gives the same kickers
  whether the excluded cards are card identifiers or rank values already converted; the
  groups of \<open>group_duplicates\<close> hold rank values of the hand, so excluding a group
  removes exactly its values.
\<close>

theorem card_value_idempotent:
  "card_value (card_value c) = card_value c \<and>
   select_side_cards cards (map card_value cards_to_exclude)
     = select_side_cards cards cards_to_exclude \<and>
   select_side_cards cards (group_duplicates cards n)
     = rev (sorted_list_of_set (card_value ` set cards - set (group_duplicates cards n)))"
proof -
  have "card_value v = v" if "v \<in> set (group_duplicates cards n)" for v
    using that group_duplicates_values [of cards n] card_value_idem by auto
  then have "card_value ` set (group_duplicates cards n) = set (group_duplicates cards n)"
    by (simp add: image_def)
  then show ?thesis
    by (simp add: card_value_idem select_side_cards_def image_image)
qed

theorem card_value_idempotent_witness:
  "card_value (card_value 26) = 13 \<and>
   select_side_cards [0, 13, 11, 37, 7, 18, 28] (map card_value [13, 37])
     = select_side_cards [0, 13, 11, 37, 7, 18, 28] [13, 37]"
  using card_value_idempotent [of 26 "[0, 13, 11, 37, 7, 18, 28]" "[13, 37]"]
  by (simp add: card_value_def)

text \<open>
  C1 (poker-equivalent card sets get the same descriptor) does not hold of the code.
  The five spades 4, 6, 8, 10, Q and the same five with the spade 2 added have the same
  best five-card hand, the flush Q-10-8-6-4; \<open>flush_suite\<close> accepts a suit only when it
  occurs exactly five times, so the six-card set is ranked as a high card.
\<close>

theorem poker_equivalent_sets_differ:
  "poker_equivalent [3, 5, 7, 9, 11] [3, 5, 7, 9, 11, 1] \<and>
   assess_hand [3, 5, 7, 9, 11] = Inr (FLUSH, [11, 9, 7, 5, 3]) \<and>
   assess_hand [3, 5, 7, 9, 11, 1] = Inr (HIGH_CARD, [11, 9, 7, 5, 3])"
  by code_simp

text \<open>
  C2 (the descriptor does not depend on the order of the cards) does not hold of the code.
  The dictionary of \<open>find_max_sequence\<close> keeps, for a rank value, the card supplied last;
  with the spades 5 to 9 and the heart 9, the straight 5-9 is seen as suited only when the
  spade 9 comes after the heart 9.
\<close>

theorem permuted_hand_differs:
  "mset [21, 4, 5, 6, 7, 8] = mset [4, 5, 6, 7, 8, 21 :: int] \<and>
   assess_hand [4, 5, 6, 7, 8, 21] = Inr (FLUSH, [8, 7, 6, 5, 4]) \<and>
   assess_hand [21, 4, 5, 6, 7, 8] = Inr (STRAIGHT_FLUSH, [8])"
  by (simp, code_simp)

text \<open>
  C9 (among the longest runs the first encountered is chosen) does not hold of the code.
  \<open>sorted(sequences, key=len)[-1]\<close> is the last of the longest runs: the values
  1, 2, 4, 5, 7 split into the runs (1, 2), (4, 5), (7), and the run (4, 5) is returned.
\<close>

theorem last_longest_run_selected:
  "split_runs (1, 1) [(2, 2), (4, 4), (5, 5), (7, 7)] [(1, 1)] []
     = [[(1, 1), (2, 2)], [(4, 4), (5, 5)], [(7, 7)]] \<and>
   find_max_sequence [1, 2, 4, 5, 7] = Inr [[4, 5], [4, 5]]"
  by code_simp

text \<open>
  C8: on five to seven cards, \<open>flush_suite\<close> returns a suit exactly when that suit is a
  most frequent one and occurs exactly five times, and returns none otherwise; so it
  returns none when six or seven cards share a suit.
\<close>

theorem flush_suite_exactly_five:
  assumes "5 \<le> length hand" and "length hand \<le> 7"
  shows "(\<forall>s. flush_suite hand = Inr (Some s) \<longleftrightarrow>
            count_list (map (\<lambda>c. c div 13) hand) s = 5 \<and>
            (\<forall>t. count_list (map (\<lambda>c. c div 13) hand) t \<le> count_list (map (\<lambda>c. c div 13) hand) s)) \<and>
         (flush_suite hand = Inr None \<longleftrightarrow>
            \<not> (\<exists>s. count_list (map (\<lambda>c. c div 13) hand) s = 5 \<and>
            (\<forall>t. count_list (map (\<lambda>c. c div 13) hand) t \<le> count_list (map (\<lambda>c. c div 13) hand) s))) \<and>
         ((\<exists>s. 6 \<le> count_list (map (\<lambda>c. c div 13) hand) s) \<longrightarrow> flush_suite hand = Inr None)"
proof -
  let ?n = "count_list (map (\<lambda>c. c div 13) hand)"
  have "hand \<noteq> []" using assms(1) by auto
  from flush_suite_top [OF this] obtain s0 where
    mx: "\<forall>t. ?n t \<le> ?n s0" and fs: "flush_suite hand = Inr (if ?n s0 = 5 then Some s0 else None)"
    by blast
  have uniq: "s = s0" if "?n s = 5" "\<forall>t. ?n t \<le> ?n s" for s
  proof (rule ccontr)
    assume "s \<noteq> s0"
    then have "?n s + ?n s0 \<le> length hand"
      using count_two_le [of s s0 "map (\<lambda>c. c div 13) hand"] by simp
    moreover have "?n s0 = 5" using that mx by (metis le_antisym)
    ultimately show False using that(1) assms(2) by simp
  qed
  have n5: "?n s0 = 5" if "?n s = 5" "\<forall>t. ?n t \<le> ?n s" for s
    using uniq [OF that] that(1) by simp
  have 1: "flush_suite hand = Inr (Some s) \<longleftrightarrow> ?n s = 5 \<and> (\<forall>t. ?n t \<le> ?n s)" for s
  proof
    assume "flush_suite hand = Inr (Some s)"
    with fs have "?n s0 = 5 \<and> s = s0" by (simp split: if_splits)
    with mx show "?n s = 5 \<and> (\<forall>t. ?n t \<le> ?n s)" by simp
  next
    assume a: "?n s = 5 \<and> (\<forall>t. ?n t \<le> ?n s)"
    then have "s = s0" using uniq by blast
    with a fs show "flush_suite hand = Inr (Some s)" by simp
  qed
  have 2: "flush_suite hand = Inr None \<longleftrightarrow> \<not> (\<exists>s. ?n s = 5 \<and> (\<forall>t. ?n t \<le> ?n s))"
  proof
    assume "flush_suite hand = Inr None"
    with fs have "?n s0 \<noteq> 5" by (simp split: if_splits)
    with n5 show "\<not> (\<exists>s. ?n s = 5 \<and> (\<forall>t. ?n t \<le> ?n s))" by blast
  next
    assume "\<not> (\<exists>s. ?n s = 5 \<and> (\<forall>t. ?n t \<le> ?n s))"
    with mx have "?n s0 \<noteq> 5" by blast
    with fs show "flush_suite hand = Inr None" by simp
  qed
  have 3: "flush_suite hand = Inr None" if "6 \<le> ?n s" for s
  proof -
    have "6 \<le> ?n s0" using that mx [rule_format, of s] by simp
    then show ?thesis using fs by simp
  qed
  from 1 2 3 show ?thesis by blast
qed

theorem flush_suite_exactly_five_witness:
  "flush_suite [0, 8, 12, 11, 10, 14, 28] = Inr (Some 0) \<and>
   flush_suite [3, 5, 7, 9, 11, 1] = Inr None"
proof -
  have a: "5 \<le> length [0, 8, 12, 11, 10, 14, 28 :: int]" "length [0, 8, 12, 11, 10, 14, 28 :: int] \<le> 7"
    by simp_all
  have b: "5 \<le> length [3, 5, 7, 9, 11, 1 :: int]" "length [3, 5, 7, 9, 11, 1 :: int] \<le> 7"
    by simp_all
  have "flush_suite [0, 8, 12, 11, 10, 14, 28] = Inr (Some 0)"
    using flush_suite_exactly_five [OF a] by simp
  moreover have "flush_suite [3, 5, 7, 9, 11, 1] = Inr None"
    using flush_suite_exactly_five [OF b] by simp
  ultimately show ?thesis by simp
qed

text \<open>
  C3 (a well-formed input gets a rank descriptor) does not hold of the code. With three
  cards of one rank value and three of another, \<open>group_duplicates\<close> puts both
  values in group 3, \<open>select_side_cards\<close> excludes both, and the slice
  \<open>side_cards[:2]\<close> holds no kicker for six cards and one for seven: for the aces and
  the kings the tuple is \<open>(THREE, 13)\<close>, and \<open>(THREE, 13, 5)\<close> with a 6 added.
  Neither is one of the 7462 tuples of five-card hands. The best five cards are the full
  house of aces over kings, and \<open>(THREE, 13)\<close> compares below the tuple of three aces
  with a 3 and a 2. No error is raised, and on every other well-formed input the tuple
  has the arity of its category (\<open>well_formed_descriptor\<close>).
\<close>

theorem two_trips_descriptor_short:
  "distinct [0, 13, 26, 12, 25, 38 :: int] \<and> set [0, 13, 26, 12, 25, 38 :: int] \<subseteq> {0..51} \<and>
   assess_hand [0, 13, 26, 12, 25, 38] = Inr (THREE, [13]) \<and>
   distinct [0, 13, 26, 12, 25, 38, 5 :: int] \<and> set [0, 13, 26, 12, 25, 38, 5 :: int] \<subseteq> {0..51} \<and>
   assess_hand [0, 13, 26, 12, 25, 38, 5] = Inr (THREE, [13, 5]) \<and>
   \<not> has_ref_arity (THREE, [13]) \<and> \<not> has_ref_arity (THREE, [13, 5]) \<and>
   assess_hand [0, 13, 26, 12, 25, 38] \<notin> assess_hand ` {cards. five_cards cards} \<and>
   assess_hand [0, 13, 26, 12, 25, 38, 5] \<notin> assess_hand ` {cards. five_cards cards} \<and>
   ref_best [0, 13, 26, 12, 25, 38] = Some (FULL_HOUSE, [13, 12]) \<and>
   assess_hand [0, 13, 26, 1, 15] = Inr (THREE, [13, 2, 1]) \<and>
   descriptor_lt (THREE, [13]) (THREE, [13, 2, 1])"
proof -
  have six: "assess_hand [0, 13, 26, 12, 25, 38] = Inr (THREE, [13])" by code_simp
  have seven: "assess_hand [0, 13, 26, 12, 25, 38, 5] = Inr (THREE, [13, 5])" by code_simp
  have a6: "\<not> has_ref_arity (THREE, [13])" and a7: "\<not> has_ref_arity (THREE, [13, 5])"
    by (simp_all add: has_ref_arity_def)
  have best: "ref_best [0, 13, 26, 12, 25, 38] = Some (FULL_HOUSE, [13, 12])" by code_simp
  have five: "assess_hand [0, 13, 26, 1, 15] = Inr (THREE, [13, 2, 1])" by code_simp
  have lt: "descriptor_lt (THREE, [13]) (THREE, [13, 2, 1])" by (simp add: descriptor_lt_def)
  show ?thesis
    unfolding six seven
    using no_five_card_tuple [OF a6] no_five_card_tuple [OF a7] a6 a7 best five lt
    by simp
qed

text \<open>
  C4 (malformed input is rejected) does not hold as stated: \<open>assess_hand\<close> has no
  validation, and ranks four cards, eight cards, the identifier 52 and a repeated card.
\<close>

theorem malformed_input_accepted:
  "assess_hand [1, 2, 3, 4] = Inr (HIGH_CARD, [4, 3, 2, 1]) \<and>
   assess_hand [1, 2, 3, 4, 6, 8, 10, 12] = Inr (HIGH_CARD, [12, 10, 8, 6, 4]) \<and>
   assess_hand [52, 1, 2, 3, 5] = Inr (HIGH_CARD, [13, 5, 3, 2, 1]) \<and>
   assess_hand [1, 1, 2, 3, 5] = Inr (FLUSH, [5, 3, 2, 1, 1])"
  by code_simp

text \<open>
  C4, amended: \<open>assess_hand\<close> fails only where an access of its own is out of bounds:
  with \<open>ValueError\<close> exactly when all cards have the same rank value (the unpacking of
  the empty result of \<open>find_max_sequence\<close>), and with \<open>IndexError\<close> exactly when the
  input is empty or has exactly two rank values that occur twice each or four times each
  (no kicker is left). Every other input, malformed or not, gets a descriptor.
\<close>

theorem assess_hand_failure_cases:
  "(assess_hand cards = Inl ValueError \<longleftrightarrow> card (card_value ` set cards) = 1) \<and>
   (assess_hand cards = Inl IndexError \<longleftrightarrow>
      cards = [] \<or>
      (\<exists>a b. a \<noteq> b \<and> card_value ` set cards = {a, b} \<and>
         count_list (map card_value cards) a = count_list (map card_value cards) b \<and>
         (count_list (map card_value cards) a = 2 \<or> count_list (map card_value cards) a = 4))) \<and>
   ((\<exists>record. assess_hand cards = Inr record) \<longleftrightarrow>
      \<not> (cards = [] \<or> card (card_value ` set cards) = 1 \<or>
      (\<exists>a b. a \<noteq> b \<and> card_value ` set cards = {a, b} \<and>
         count_list (map card_value cards) a = count_list (map card_value cards) b \<and>
         (count_list (map card_value cards) a = 2 \<or> count_list (map card_value cards) a = 4))))"
proof -
  let ?P = "\<exists>a b. a \<noteq> b \<and> card_value ` set cards = {a, b} \<and>
         count_list (map card_value cards) a = count_list (map card_value cards) b \<and>
         (count_list (map card_value cards) a = 2 \<or> count_list (map card_value cards) a = 4)"
  have P1: "card (card_value ` set cards) \<noteq> 1" if ?P
  proof -
    from that obtain a b where "a \<noteq> b" "card_value ` set cards = {a, b}" by blast
    then show ?thesis by simp
  qed
  have E1: "cards \<noteq> []" if "card (card_value ` set cards) = 1"
    using that by auto
  have V: "assess_hand cards = Inl ValueError \<longleftrightarrow> card (card_value ` set cards) = 1"
    by (rule assess_hand_ValueError_iff)
  have E: "(\<exists>e. assess_hand cards = Inl e) \<longleftrightarrow>
      cards = [] \<or> card (card_value ` set cards) = 1 \<or> ?P"
    by (rule assess_hand_error_iff)
  have I: "assess_hand cards = Inl IndexError \<longleftrightarrow> cards = [] \<or> ?P"
  proof
    assume a: "assess_hand cards = Inl IndexError"
    then have "card (card_value ` set cards) \<noteq> 1" using V by simp
    with a E show "cards = [] \<or> ?P" by blast
  next
    assume a: "cards = [] \<or> ?P"
    then have "card (card_value ` set cards) \<noteq> 1" using P1 E1 by blast
    then have "assess_hand cards \<noteq> Inl ValueError" using V by simp
    moreover from a E obtain e where "assess_hand cards = Inl e" by blast
    ultimately show "assess_hand cards = Inl IndexError" by (cases e) auto
  qed
  have R: "(\<exists>record. assess_hand cards = Inr record) \<longleftrightarrow>
      \<not> (cards = [] \<or> card (card_value ` set cards) = 1 \<or> ?P)"
    unfolding E [symmetric] by (cases "assess_hand cards") auto
  from V I R show ?thesis by blast
qed

theorem assess_hand_failure_cases_witness:
  "assess_hand [0, 13, 26, 39, 0] = Inl ValueError \<and> assess_hand [] = Inl IndexError"
  using assess_hand_failure_cases [of "[0, 13, 26, 39, 0]"] assess_hand_failure_cases [of "[]"]
  by (simp add: card_value_def)

text \<open>
  C7: seven cards with three cards of one rank value, three of another and one of a third,
  and no flush: \<open>group_duplicates\<close> puts both trip values in group 3 and leaves group 2
  empty, and \<open>assess_hand\<close> returns a three-of-a-kind descriptor (never a full house);
  a straight is impossible with three rank values.
\<close>

theorem two_trips_ranked_three:
  assumes "length cards = 7"
    and "a \<noteq> b" and "a \<noteq> c" and "b \<noteq> c"
    and "count_list (map card_value cards) a = 3"
    and "count_list (map card_value cards) b = 3"
    and "count_list (map card_value cards) c = 1"
    and "flush_suite cards = Inr None"
  shows "set (group_duplicates cards 3) = {a, b} \<and>
         length (group_duplicates cards 3) = 2 \<and>
         group_duplicates cards 2 = [] \<and>
         (\<exists>t. (t = a \<or> t = b) \<and> assess_hand cards = Inr (THREE, [t, c]))"
proof -
  let ?vals = "map card_value cards"
  let ?cnt = "count_list ?vals"
  let ?V = "card_value ` set cards"
  let ?sv = "longest_run (sorted_list_of_set (seq_keys cards))"
  let ?dup = "group_duplicates cards"
  have mem: "a \<in> set ?vals" "b \<in> set ?vals" "c \<in> set ?vals"
    using assms(5-7) count_list_0_iff [of ?vals] by fastforce+
  have others: "x \<in> {a, b, c}" if "x \<in> set ?vals" for x
  proof (rule ccontr)
    assume "x \<notin> {a, b, c}"
    then have "sum ?cnt {a, b, c, x} = ?cnt a + ?cnt b + ?cnt c + ?cnt x"
      using assms(2-4) by simp
    moreover have "sum ?cnt {a, b, c, x} \<le> length ?vals"
      by (rule count_sum_le) simp
    ultimately have "?cnt x = 0" using assms(1,5-7) by simp
    then show False using that by (simp add: count_list_0_iff)
  qed
  have V: "?V = {a, b, c}" using mem others by auto
  then have cV: "card ?V = 3" using assms(2-4) by simp
  have ne: "cards \<noteq> []" using assms(1) by auto
  from cV have c2: "2 \<le> card ?V" and n1: "card ?V \<noteq> 1" by simp_all
  from top_two [OF c2] obtain a' b' where t: "a' \<noteq> b'" "a' \<in> ?V" "b' \<in> ?V"
    "most_common 2 (Counter ?vals) = [(a', ?cnt a'), (b', ?cnt b')]"
    "?cnt b' \<le> ?cnt a'"
    "\<And>v. v \<in> ?V \<Longrightarrow> v \<noteq> a' \<Longrightarrow> v \<noteq> b' \<Longrightarrow> ?cnt v \<le> ?cnt b'"
    by metis
  have "a' \<noteq> c"
  proof
    assume "a' = c"
    then have "b' = a \<or> b' = b" using t(1,3) V by auto
    then show False using t(5) \<open>a' = c\<close> assms(5-7) by auto
  qed
  moreover have "b' \<noteq> c"
  proof
    assume bc: "b' = c"
    then have "a' = a \<or> a' = b" using t(1,2) V by auto
    then obtain v where "v \<in> ?V" "v \<noteq> a'" "v \<noteq> b'" "?cnt v = 3"
      using assms(2-6) bc V by auto
    then show False using t(6) [of v] bc assms(7) by simp
  qed
  ultimately have tops: "(a' = a \<and> b' = b) \<or> (a' = b \<and> b' = a)"
    using t(1-3) V by auto
  then have cnt3: "?cnt a' = 3" "?cnt b' = 3" using assms(5,6) by auto
  have dup: "?dup m = (if ?cnt a' = m then [a'] else []) @ (if ?cnt b' = m then [b'] else [])" for m
    using t(4) by (rule group_duplicates_top_two)
  have d3: "?dup 3 = [a', b']" and d2: "?dup 2 = []" and d4: "?dup 4 = []"
    by (simp_all add: dup cnt3)
  have "?V - {a', b'} = {c}" using tops V assms(2-4) by auto
  then have side: "select_side_cards cards [a', b'] = [c]"
    using card_value_group_duplicates [of cards 3]
    by (simp add: select_side_cards_def d3)
  have len: "length ?sv \<noteq> 5"
    using length_longest_run_keys [of cards] cV by simp
  have "assess_rest cards ?sv ?dup = Inr (THREE, [a', c])"
    using len by (simp add: assess_rest_def d3 side)
  then have "assess_hand cards = Inr (THREE, [a', c])"
    unfolding assess_hand_body [OF ne n1] using len d4 d2 assms(8) by simp
  then have "\<exists>t. (t = a \<or> t = b) \<and> assess_hand cards = Inr (THREE, [t, c])"
    using tops by blast
  moreover have "set (?dup 3) = {a, b}" using tops d3 by auto
  moreover have "length (?dup 3) = 2" using d3 by simp
  ultimately show ?thesis using d2 by blast
qed

theorem two_trips_ranked_three_witness:
  "group_duplicates [0, 13, 26, 12, 25, 38, 5] 2 = [] \<and>
   set (group_duplicates [0, 13, 26, 12, 25, 38, 5] 3) = {13, 12} \<and>
   (assess_hand [0, 13, 26, 12, 25, 38, 5] = Inr (THREE, [13, 5]) \<or>
    assess_hand [0, 13, 26, 12, 25, 38, 5] = Inr (THREE, [12, 5]))"
proof -
  have "length [0, 13, 26, 12, 25, 38, 5 :: int] = 7"
    and "(13::int) \<noteq> 12" and "(13::int) \<noteq> 5" and "(12::int) \<noteq> 5"
    and "count_list (map card_value [0, 13, 26, 12, 25, 38, 5]) 13 = 3"
    and "count_list (map card_value [0, 13, 26, 12, 25, 38, 5]) 12 = 3"
    and "count_list (map card_value [0, 13, 26, 12, 25, 38, 5]) 5 = 1"
    by (simp_all add: card_value_def)
  moreover have "flush_suite [0, 13, 26, 12, 25, 38, 5] = Inr None"
    by code_simp
  ultimately show ?thesis
    using two_trips_ranked_three [of "[0, 13, 26, 12, 25, 38, 5]" 13 12 5] by blast
qed

text \<open>
  C6: the wheel. The ace, 2, 3, 4, 5 of one suit, in any order, get the descriptor
  \<open>(STRAIGHT_FLUSH, 4)\<close>, and the 2 to 6 of one suit get \<open>(STRAIGHT_FLUSH, 5)\<close>. Every
  straight or straight flush that \<open>assess_hand\<close> returns has one high value \<open>h\<close> with
  \<open>4 \<le> h\<close>, the values \<open>h - 4\<close> to \<open>h\<close> being keys of the hand, and \<open>h = 4\<close> only for a
  hand that holds the ranks of the wheel; so the wheel's 4 lies strictly below the high
  value of every other straight. Every descriptor of another category is smaller than the
  wheel's.
\<close>

theorem wheel_straight_flush_lowest:
  "(\<forall>s cards. s \<in> {0, 1, 2, 3} \<and> distinct cards \<and>
       set cards = {13 * s, 13 * s + 1, 13 * s + 2, 13 * s + 3, 13 * s + 4}
       \<longrightarrow> assess_hand cards = Inr (STRAIGHT_FLUSH, [4])) \<and>
   (\<forall>s cards. s \<in> {0, 1, 2, 3} \<and> distinct cards \<and>
       set cards = {13 * s + 1, 13 * s + 2, 13 * s + 3, 13 * s + 4, 13 * s + 5}
       \<longrightarrow> assess_hand cards = Inr (STRAIGHT_FLUSH, [5])) \<and>
   (\<forall>cards c vs. assess_hand cards = Inr (c, vs) \<and> (c = STRAIGHT \<or> c = STRAIGHT_FLUSH)
       \<longrightarrow> (\<exists>h. vs = [h] \<and> 4 \<le> h \<and> h \<le> 13 \<and> {h - 4..h} \<subseteq> seq_keys cards \<and>
                (h = 4 \<longrightarrow> {13, 1, 2, 3, 4} \<subseteq> card_value ` set cards))) \<and>
   (\<forall>cards c vs. assess_hand cards = Inr (c, vs) \<and> c \<noteq> STRAIGHT \<and> c \<noteq> STRAIGHT_FLUSH
       \<longrightarrow> descriptor_lt (c, vs) (STRAIGHT_FLUSH, [4]))"
proof -
  have 3: "\<exists>h. vs = [h] \<and> 4 \<le> h \<and> h \<le> 13 \<and> {h - 4..h} \<subseteq> seq_keys cards \<and>
                (h = 4 \<longrightarrow> {13, 1, 2, 3, 4} \<subseteq> card_value ` set cards)"
    if a: "assess_hand cards = Inr (c, vs)" "c = STRAIGHT \<or> c = STRAIGHT_FLUSH" for cards c vs
  proof -
    from straight_high_value [OF a] obtain h where
      h: "vs = [h]" "4 \<le> h" "h \<le> 13" "{h - 4..h} \<subseteq> seq_keys cards" by blast
    have "{13, 1, 2, 3, 4} \<subseteq> card_value ` set cards" if "h = 4"
    proof -
      have "{0, 1, 2, 3, 4} \<subseteq> seq_keys cards" using h(4) that by auto
      then have "0 \<in> seq_keys cards" "1 \<in> seq_keys cards" "2 \<in> seq_keys cards"
        "3 \<in> seq_keys cards" "4 \<in> seq_keys cards" by simp_all
      then show ?thesis by (simp add: seq_keys_mem)
    qed
    with h show ?thesis by blast
  qed
  have 1: "assess_hand cards = Inr (STRAIGHT_FLUSH, [4])"
    if "s \<in> {0, 1, 2, 3} \<and> distinct cards \<and>
       set cards = {13 * s, 13 * s + 1, 13 * s + 2, 13 * s + 3, 13 * s + 4}" for s cards
    using that wheel_hand [of s cards] by blast
  have 2: "assess_hand cards = Inr (STRAIGHT_FLUSH, [5])"
    if "s \<in> {0, 1, 2, 3} \<and> distinct cards \<and>
       set cards = {13 * s + 1, 13 * s + 2, 13 * s + 3, 13 * s + 4, 13 * s + 5}" for s cards
    using that six_high_hand [of s cards] by blast
  have 4: "descriptor_lt (c, vs) (STRAIGHT_FLUSH, [4])"
    if "assess_hand cards = Inr (c, vs) \<and> c \<noteq> STRAIGHT \<and> c \<noteq> STRAIGHT_FLUSH"
    for cards c vs
    using that non_straight_below_wheel [of c vs] by blast
  show ?thesis
  proof (intro conjI allI impI)
    fix s :: int and cards :: "int list"
    assume "s \<in> {0, 1, 2, 3} \<and> distinct cards \<and>
       set cards = {13 * s, 13 * s + 1, 13 * s + 2, 13 * s + 3, 13 * s + 4}"
    then show "assess_hand cards = Inr (STRAIGHT_FLUSH, [4])" by (rule 1)
  next
    fix s :: int and cards :: "int list"
    assume "s \<in> {0, 1, 2, 3} \<and> distinct cards \<and>
       set cards = {13 * s + 1, 13 * s + 2, 13 * s + 3, 13 * s + 4, 13 * s + 5}"
    then show "assess_hand cards = Inr (STRAIGHT_FLUSH, [5])" by (rule 2)
  next
    fix cards :: "int list" and c :: Hand and vs :: "int list"
    assume "assess_hand cards = Inr (c, vs) \<and> (c = STRAIGHT \<or> c = STRAIGHT_FLUSH)"
    then show "\<exists>h. vs = [h] \<and> 4 \<le> h \<and> h \<le> 13 \<and> {h - 4..h} \<subseteq> seq_keys cards \<and>
                (h = 4 \<longrightarrow> {13, 1, 2, 3, 4} \<subseteq> card_value ` set cards)"
      using 3 [of cards c vs] by blast
  next
    fix cards :: "int list" and c :: Hand and vs :: "int list"
    assume "assess_hand cards = Inr (c, vs) \<and> c \<noteq> STRAIGHT \<and> c \<noteq> STRAIGHT_FLUSH"
    then show "descriptor_lt (c, vs) (STRAIGHT_FLUSH, [4])" by (rule 4)
  qed
qed

theorem wheel_straight_flush_lowest_witness:
  "assess_hand [4, 3, 2, 1, 0] = Inr (STRAIGHT_FLUSH, [4]) \<and>
   assess_hand [14, 15, 16, 17, 18] = Inr (STRAIGHT_FLUSH, [5]) \<and>
   descriptor_lt (FOUR, [13, 12]) (STRAIGHT_FLUSH, [4])"
proof -
  note t = wheel_straight_flush_lowest
  have "assess_hand [4, 3, 2, 1, 0] = Inr (STRAIGHT_FLUSH, [4])"
    using t [THEN conjunct1, rule_format, of 0 "[4, 3, 2, 1, 0]"] by auto
  moreover have "assess_hand [14, 15, 16, 17, 18] = Inr (STRAIGHT_FLUSH, [5])"
    using t [THEN conjunct2, THEN conjunct1, rule_format, of 1 "[14, 15, 16, 17, 18]"] by auto
  moreover have "assess_hand [0, 13, 26, 39, 12] = Inr (FOUR, [13, 12])"
    by code_simp
  then have "descriptor_lt (FOUR, [13, 12]) (STRAIGHT_FLUSH, [4])"
    using t [THEN conjunct2, THEN conjunct2, THEN conjunct2, rule_format,
             of "[0, 13, 26, 39, 12]" FOUR "[13, 12]"] by simp
  ultimately show ?thesis by blast
qed

text \<open>
  C5: the deck has 2,598,960 five-card subsets, and \<open>assess_hand\<close> gives them exactly
  7462 distinct descriptors, whether each subset is supplied in ascending order or in
  every order.
\<close>

theorem five_card_hands_7462:
  "card {S :: int set. S \<subseteq> {0..51} \<and> card S = 5} = 2598960 \<and>
   card ((\<lambda>S. assess_hand (sorted_list_of_set S)) ` {S. S \<subseteq> {0..51} \<and> card S = 5}) = 7462 \<and>
   card (assess_hand ` {cards. length cards = 5 \<and> distinct cards \<and> set cards \<subseteq> {0..51}}) = 7462"
proof -
  have "{cards. length cards = 5 \<and> distinct cards \<and> set cards \<subseteq> {0..51}}
      = {cards. five_cards cards}"
    by (simp add: five_cards_def)
  then show ?thesis
    by (simp only: card_five_subsets five_subsets_image five_card_count simp_thms)
qed

end
